theory Spec2Isabelle
  imports Main "HOL-Library.AList"
begin

section \<open>Data model of App.tsx\<close>

text \<open>
  The types of \<^verbatim>\<open>./types\<close> are imported by App.tsx; the embedding declares them as the
  source uses them.
\<close>

text \<open>
  Modelled from the spec: the enum \<^verbatim>\<open>ProcessingStatus\<close> (declared in \<^verbatim>\<open>./types\<close>); its four
  members are the ones App.tsx and the spec name.
\<close>

datatype ProcessingStatus = IDLE | PROCESSING | COMPLETED | ERROR

text \<open>
  Modelled from the spec: the enum \<^verbatim>\<open>UpscaleFactor\<close> (declared in \<^verbatim>\<open>./types\<close>), with the
  members the settings panel lists; their numeric values are 1, 2, 4 and 8.
\<close>

datatype UpscaleFactor = NONE | X2 | X4 | X8

fun factor_value :: "UpscaleFactor \<Rightarrow> nat" where
  "factor_value NONE = 1"
| "factor_value X2 = 2"
| "factor_value X4 = 4"
| "factor_value X8 = 8"

text \<open>
  Modelled from the spec: the numeric enum \<^verbatim>\<open>DpiOutput\<close> (declared in \<^verbatim>\<open>./types\<close>); a value
  is the number of dots per inch.
\<close>

type_synonym DpiOutput = nat

definition DPI_300 :: DpiOutput where
  "DPI_300 = 300"

record ImageSettings =
  upscaleFactor :: UpscaleFactor
  dpi :: DpiOutput
  preserveStyle :: bool
  enabled :: bool

text \<open>
  \<^verbatim>\<open>Partial<ImageSettings>\<close>: every key may be absent. An absent key is \<open>None\<close>.
\<close>

record PartialSettings =
  p_upscaleFactor :: "UpscaleFactor option"
  p_dpi :: "DpiOutput option"
  p_preserveStyle :: "bool option"
  p_enabled :: "bool option"

definition DEFAULT_SETTINGS :: ImageSettings where
  "DEFAULT_SETTINGS =
     \<lparr>upscaleFactor = X4, dpi = DPI_300, preserveStyle = True, enabled = True\<rparr>"

text \<open>The object spread \<^verbatim>\<open>{ ...s, ...p }\<close>: the keys present in \<open>p\<close> win.\<close>

definition spread_settings :: "ImageSettings \<Rightarrow> PartialSettings \<Rightarrow> ImageSettings" where
  "spread_settings s p =
     \<lparr>upscaleFactor = (case p_upscaleFactor p of None \<Rightarrow> upscaleFactor s | Some v \<Rightarrow> v),
      dpi = (case p_dpi p of None \<Rightarrow> dpi s | Some v \<Rightarrow> v),
      preserveStyle = (case p_preserveStyle p of None \<Rightarrow> preserveStyle s | Some v \<Rightarrow> v),
      enabled = (case p_enabled p of None \<Rightarrow> enabled s | Some v \<Rightarrow> v)\<rparr>"

text \<open>The browser's \<^verbatim>\<open>File\<close>: its name and its MIME type are what App.tsx reads.\<close>

record File =
  name :: string
  ftype :: string

text \<open>
  \<^verbatim>\<open>ImageFile\<close>. The field \<^verbatim>\<open>id\<close> is \<open>fid\<close> here (\<open>id\<close> is the identity function of HOL) and
  the field \<^verbatim>\<open>file\<close> is \<open>file_obj\<close> (\<open>file\<close> is a keyword).
  The optional fields \<^verbatim>\<open>processedUrl\<close>, \<^verbatim>\<open>error\<close> and \<^verbatim>\<open>analysis\<close> are absent when \<open>None\<close>.
\<close>

record ImageFile =
  fid :: string
  file_obj :: File
  originalName :: string
  previewUrl :: string
  status :: ProcessingStatus
  settings :: ImageSettings
  width :: nat
  height :: nat
  processedUrl :: "string option"
  error :: "string option"
  analysis :: "string option"

text \<open>The React state of the component \<^verbatim>\<open>App\<close>.\<close>

record App_state =
  files :: "ImageFile list"
  globalSettings :: ImageSettings
  isProcessingBatch :: bool
  isZipping :: bool

definition initial_state :: App_state where
  "initial_state =
     \<lparr>files = [], globalSettings = DEFAULT_SETTINGS,
      isProcessingBatch = False, isZipping = False\<rparr>"

text \<open>
  What \<^verbatim>\<open>handleFiles\<close> takes from the browser for the k-th admitted file:
  \<open>random_id k\<close> is the string \<^verbatim>\<open>Math.random().toString(36).substr(2, 9)\<close> evaluates to, and
  \<open>createObjectURL k\<close> the URL that \<^verbatim>\<open>URL.createObjectURL(file)\<close> returns.
\<close>

record Browser =
  random_id :: "nat \<Rightarrow> string"
  createObjectURL :: "nat \<Rightarrow> string"

section \<open>Handlers\<close>

definition is_image :: "File \<Rightarrow> bool" where
  "is_image f = (take 6 (ftype f) = ''image/'')"

definition new_image :: "Browser \<Rightarrow> ImageSettings \<Rightarrow> nat \<times> File \<Rightarrow> ImageFile" where
  "new_image env gs kf =
     \<lparr>fid = random_id env (fst kf),
      file_obj = snd kf,
      originalName = name (snd kf),
      previewUrl = createObjectURL env (fst kf),
      status = IDLE,
      settings = gs,
      width = 0,
      height = 0,
      processedUrl = None,
      error = None,
      analysis = None\<rparr>"

text \<open>
  \<^verbatim>\<open>handleFiles\<close> (lines 33--64). \<open>MAX_FILES\<close> comes from \<^verbatim>\<open>./constants\<close> and is a
  parameter. \<open>None\<close> is the \<^verbatim>\<open>null\<close> file list. The size check reads the list of the
  current render, which is the state the handler runs in.
\<close>

definition handleFiles ::
  "nat \<Rightarrow> Browser \<Rightarrow> File list option \<Rightarrow> 'a App_state_scheme \<Rightarrow> 'a App_state_scheme" where
  "handleFiles MAX_FILES env newFiles s =
     (case newFiles of
        None \<Rightarrow> s
      | Some nf \<Rightarrow>
          (let validFiles = filter is_image nf in
           if length (files s) + length validFiles > MAX_FILES then s
           else
             (let processedFiles = map (new_image env (globalSettings s)) (enumerate 0 validFiles)
              in s\<lparr>files := files s @ processedFiles\<rparr>)))"

text \<open>The callback \<^verbatim>\<open>img.onload\<close> of line 57, for the item created with id \<open>pid\<close>.\<close>

definition img_onload :: "string \<Rightarrow> nat \<Rightarrow> nat \<Rightarrow> ImageFile list \<Rightarrow> ImageFile list" where
  "img_onload pid w h prev =
     map (\<lambda>f. if fid f = pid then f\<lparr>width := w, height := h\<rparr> else f) prev"

text \<open>\<^verbatim>\<open>updateGlobalSettings\<close> (lines 72--83).\<close>

definition updateGlobalSettings ::
  "PartialSettings \<Rightarrow> 'a App_state_scheme \<Rightarrow> 'a App_state_scheme" where
  "updateGlobalSettings newSettings s =
     (let updated = spread_settings (globalSettings s) newSettings in
      s\<lparr>files :=
           map (\<lambda>f. if status f = IDLE
                     then f\<lparr>settings := spread_settings (settings f) newSettings\<rparr>
                     else f) (files s),
        globalSettings := updated\<rparr>)"

text \<open>\<^verbatim>\<open>updateFileSettings\<close>, \<^verbatim>\<open>updateFileAnalysis\<close> and \<^verbatim>\<open>removeFile\<close> (lines 85--95).\<close>

definition updateFileSettings :: "string \<Rightarrow> PartialSettings \<Rightarrow> ImageFile list \<Rightarrow> ImageFile list" where
  "updateFileSettings i newSettings prev =
     map (\<lambda>f. if fid f = i then f\<lparr>settings := spread_settings (settings f) newSettings\<rparr> else f) prev"

definition updateFileAnalysis :: "string \<Rightarrow> string \<Rightarrow> ImageFile list \<Rightarrow> ImageFile list" where
  "updateFileAnalysis i a prev =
     map (\<lambda>f. if fid f = i then f\<lparr>analysis := Some a\<rparr> else f) prev"

definition removeFile :: "string \<Rightarrow> ImageFile list \<Rightarrow> ImageFile list" where
  "removeFile i prev = filter (\<lambda>f. fid f \<noteq> i) prev"

section \<open>The batch run\<close>

text \<open>
  \<^verbatim>\<open>processImage\<close> comes from \<^verbatim>\<open>./services/imageProcessor\<close> and is a parameter: for a
  file it either resolves to the URL of the result (\<open>Inr\<close>) or rejects (\<open>Inl\<close>).
\<close>

datatype js_error = JsError string

type_synonym process_result = "js_error + string"

text \<open>The three updates of the list that the loop body makes (lines 105, 112 and 119).\<close>

definition set_processing :: "string \<Rightarrow> ImageFile list \<Rightarrow> ImageFile list" where
  "set_processing i prev =
     map (\<lambda>f. if fid f = i then f\<lparr>status := PROCESSING\<rparr> else f) prev"

definition set_completed :: "string \<Rightarrow> string \<Rightarrow> ImageFile list \<Rightarrow> ImageFile list" where
  "set_completed i resultUrl prev =
     map (\<lambda>f. if fid f = i then f\<lparr>status := COMPLETED, processedUrl := Some resultUrl\<rparr> else f) prev"

definition set_error :: "string \<Rightarrow> ImageFile list \<Rightarrow> ImageFile list" where
  "set_error i prev =
     map (\<lambda>f. if fid f = i then f\<lparr>status := ERROR, error := Some ''Processing failed''\<rparr> else f) prev"

text \<open>The end of the \<^verbatim>\<open>try\<close> block, or the \<^verbatim>\<open>catch\<close> block, for the file being processed.\<close>

definition settle :: "process_result \<Rightarrow> ImageFile \<Rightarrow> ImageFile list \<Rightarrow> ImageFile list" where
  "settle r file prev =
     (case r of
        Inr resultUrl \<Rightarrow> set_completed (fid file) resultUrl prev
      | Inl e \<Rightarrow> set_error (fid file) prev)"

definition filesToProcess :: "ImageFile list \<Rightarrow> ImageFile list" where
  "filesToProcess fs = filter (\<lambda>f. status f = IDLE \<or> status f = ERROR) fs"

text \<open>One iteration of the \<^verbatim>\<open>for\<close> loop of line 103, and the loop over the rest of the queue.\<close>

definition process_one ::
  "(ImageFile \<Rightarrow> process_result) \<Rightarrow> ImageFile \<Rightarrow> ImageFile list \<Rightarrow> ImageFile list" where
  "process_one processImage file prev =
     settle (processImage file) file (set_processing (fid file) prev)"

fun batch_loop ::
  "(ImageFile \<Rightarrow> process_result) \<Rightarrow> ImageFile list \<Rightarrow> ImageFile list \<Rightarrow> ImageFile list" where
  "batch_loop processImage [] prev = prev"
| "batch_loop processImage (file # rest) prev =
     batch_loop processImage rest (process_one processImage file prev)"

text \<open>
  The successive values of the file list during the loop: for each file of the queue the
  list while that file is awaited, then the list once it has settled.
\<close>

fun batch_trace ::
  "(ImageFile \<Rightarrow> process_result) \<Rightarrow> ImageFile list \<Rightarrow> ImageFile list \<Rightarrow> ImageFile list list" where
  "batch_trace processImage [] prev = []"
| "batch_trace processImage (file # rest) prev =
     (let awaiting = set_processing (fid file) prev;
          settled = settle (processImage file) file awaiting
      in awaiting # settled # batch_trace processImage rest settled)"

text \<open>
  \<^verbatim>\<open>processBatch\<close> (lines 97--128), run from the state of the render that created it with
  nothing else happening in between.
\<close>

definition processBatch ::
  "(ImageFile \<Rightarrow> process_result) \<Rightarrow> 'a App_state_scheme \<Rightarrow> 'a App_state_scheme" where
  "processBatch processImage s =
     s\<lparr>files := batch_loop processImage (filesToProcess (files s)) (files s),
       isProcessingBatch := False\<rparr>"

text \<open>What a settled file looks like: the item with the two updates of its iteration applied.\<close>

definition finished :: "process_result \<Rightarrow> ImageFile \<Rightarrow> ImageFile" where
  "finished r f =
     (case r of
        Inr resultUrl \<Rightarrow> f\<lparr>status := COMPLETED, processedUrl := Some resultUrl\<rparr>
      | Inl e \<Rightarrow> f\<lparr>status := ERROR, error := Some ''Processing failed''\<rparr>)"

definition count_status :: "ProcessingStatus \<Rightarrow> ImageFile list \<Rightarrow> nat" where
  "count_status st fs = length (filter (\<lambda>f. status f = st) fs)"

text \<open>
  The item as the first file of a queue with its id leaves it; the item itself when the
  queue has no file with its id.
\<close>

definition settled_by :: "(ImageFile \<Rightarrow> process_result) \<Rightarrow> ImageFile list \<Rightarrow> ImageFile \<Rightarrow> ImageFile" where
  "settled_by pI qs f =
     (case find (\<lambda>q. fid q = fid f) qs of None \<Rightarrow> f | Some q \<Rightarrow> finished (pI q) f)"

section \<open>The handlers interleaved with a running batch\<close>

text \<open>
  \<^verbatim>\<open>processBatch\<close> is suspended at each \<^verbatim>\<open>await\<close>, and other handlers run meanwhile. The
  state of the suspended loop is kept next to the React state: \<open>pending\<close> is the rest of
  \<^verbatim>\<open>filesToProcess\<close>, \<open>inflight\<close> the file whose \<^verbatim>\<open>processImage\<close> is awaited.
\<close>

record Sys_state = App_state +
  pending :: "ImageFile list"
  inflight :: "ImageFile option"

definition boot :: Sys_state where
  "boot =
     \<lparr>files = [], globalSettings = DEFAULT_SETTINGS,
      isProcessingBatch = False, isZipping = False, pending = [], inflight = None\<rparr>"

datatype action =
    HandleFiles Browser "File list option"
  | ImgOnload string nat nat
  | UpdateGlobalSettings PartialSettings
  | UpdateFileSettings string PartialSettings
  | UpdateFileAnalysis string string
  | RemoveFile string
  | ClearAll
  | ProcessBatch
  | ProcessImageSettled process_result

text \<open>
  The head of the loop: with a file left, mark it PROCESSING and await it; with none left,
  \<^verbatim>\<open>setIsProcessingBatch(false)\<close>.
\<close>

definition next_file :: "Sys_state \<Rightarrow> Sys_state" where
  "next_file s =
     (case pending s of
        [] \<Rightarrow> s\<lparr>isProcessingBatch := False\<rparr>
      | file # rest \<Rightarrow>
          s\<lparr>files := set_processing (fid file) (files s), pending := rest, inflight := Some file\<rparr>)"

text \<open>
  One event. The button that calls \<^verbatim>\<open>processBatch\<close> is disabled while
  \<^verbatim>\<open>isProcessingBatch\<close> holds or every file is COMPLETED (line 304); a click then does nothing.
  Everything up to the next \<^verbatim>\<open>await\<close> runs in one step.
\<close>

fun exec :: "nat \<Rightarrow> action \<Rightarrow> Sys_state \<Rightarrow> Sys_state" where
  "exec MAX_FILES (HandleFiles env newFiles) s = handleFiles MAX_FILES env newFiles s"
| "exec MAX_FILES (ImgOnload pid w h) s = s\<lparr>files := img_onload pid w h (files s)\<rparr>"
| "exec MAX_FILES (UpdateGlobalSettings d) s = updateGlobalSettings d s"
| "exec MAX_FILES (UpdateFileSettings i d) s = s\<lparr>files := updateFileSettings i d (files s)\<rparr>"
| "exec MAX_FILES (UpdateFileAnalysis i a) s = s\<lparr>files := updateFileAnalysis i a (files s)\<rparr>"
| "exec MAX_FILES (RemoveFile i) s = s\<lparr>files := removeFile i (files s)\<rparr>"
| "exec MAX_FILES ClearAll s = s\<lparr>files := []\<rparr>"
| "exec MAX_FILES ProcessBatch s =
     (if isProcessingBatch s \<or> list_all (\<lambda>f. status f = COMPLETED) (files s) then s
      else next_file (s\<lparr>isProcessingBatch := True, pending := filesToProcess (files s)\<rparr>))"
| "exec MAX_FILES (ProcessImageSettled r) s =
     (case inflight s of
        None \<Rightarrow> s
      | Some file \<Rightarrow> next_file (s\<lparr>files := settle r file (files s), inflight := None\<rparr>))"

fun run :: "nat \<Rightarrow> action list \<Rightarrow> Sys_state \<Rightarrow> Sys_state" where
  "run MAX_FILES [] s = s"
| "run MAX_FILES (a # as) s = run MAX_FILES as (exec MAX_FILES a s)"

text \<open>Whether the ids of the list are pairwise distinct in every state a run passes through.\<close>

fun ids_distinct_along :: "nat \<Rightarrow> action list \<Rightarrow> Sys_state \<Rightarrow> bool" where
  "ids_distinct_along MAX_FILES [] s = distinct (map fid (files s))"
| "ids_distinct_along MAX_FILES (a # as) s =
     (distinct (map fid (files s)) \<and> ids_distinct_along MAX_FILES as (exec MAX_FILES a s))"

text \<open>
  Whether an event is a submission one of whose draws is the id \<open>pid\<close>: the draws of
  \<^verbatim>\<open>handleFiles\<close> are those for the images among the incoming files.
\<close>

fun draws_id :: "string \<Rightarrow> action \<Rightarrow> bool" where
  "draws_id pid (HandleFiles env (Some nf)) =
     (pid \<in> set (map (random_id env) [0..<length (filter is_image nf)]))"
| "draws_id pid a = False"

definition has_output :: "ImageFile \<Rightarrow> bool" where
  "has_output f = (processedUrl f \<noteq> None)"

definition output_iff_completed :: "ImageFile list \<Rightarrow> bool" where
  "output_iff_completed fs = list_all (\<lambda>f. has_output f = (status f = COMPLETED)) fs"

text \<open>
  The files the suspended loop has yet to settle: the one awaited, then the pending ones.
\<close>

definition batch_queue :: "Sys_state \<Rightarrow> ImageFile list" where
  "batch_queue s = (case inflight s of None \<Rightarrow> [] | Some c \<Rightarrow> [c]) @ pending s"

text \<open>
  What the loop relies on: the files of its queue have pairwise distinct ids, and no item
  of the list with the id of a queued file is COMPLETED.
\<close>

definition queue_ok :: "ImageFile list \<Rightarrow> ImageFile list \<Rightarrow> bool" where
  "queue_ok qs fs \<longleftrightarrow>
     distinct (map fid qs) \<and> (\<forall>q\<in>set qs. \<forall>f\<in>set fs. fid f = fid q \<longrightarrow> status f \<noteq> COMPLETED)"

text \<open>
  The invariant of the interleaved system: an item has an output exactly when it is
  COMPLETED, the queue is as above, and the loop is idle when \<^verbatim>\<open>isProcessingBatch\<close> is off.
\<close>

definition batch_inv :: "Sys_state \<Rightarrow> bool" where
  "batch_inv s \<longleftrightarrow>
     output_iff_completed (files s) \<and> queue_ok (batch_queue s) (files s)
     \<and> (\<not> isProcessingBatch s \<longrightarrow> pending s = [] \<and> inflight s = None)"

text \<open>
  The events by which the files of a queue settle one after the other, each with the
  outcome \<^verbatim>\<open>processImage\<close> has for it.
\<close>

definition settlements :: "(ImageFile \<Rightarrow> process_result) \<Rightarrow> ImageFile list \<Rightarrow> action list" where
  "settlements pI qs = map (\<lambda>file. ProcessImageSettled (pI file)) qs"

text \<open>
  Every item that is PROCESSING has the id of the file awaited, and no file is awaited
  when \<^verbatim>\<open>isProcessingBatch\<close> is off.
\<close>

definition processing_inv :: "Sys_state \<Rightarrow> bool" where
  "processing_inv s \<longleftrightarrow>
     (\<forall>f\<in>set (files s). status f = PROCESSING \<longrightarrow> (\<exists>c. inflight s = Some c \<and> fid f = fid c))
     \<and> (\<not> isProcessingBatch s \<longrightarrow> inflight s = None)"

section \<open>The export\<close>

text \<open>
  What \<^verbatim>\<open>downloadAllZip\<close> takes from outside: \<open>fetch_blob url\<close> is
  \<^verbatim>\<open>fetch(url).then(r => r.blob())\<close>, \<open>generateAsync\<close> is JSZip's on the entries added, and
  \<open>today\<close> is \<^verbatim>\<open>new Date().toISOString().slice(0,10)\<close>. Each of the two calls resolves
  (\<open>Inr\<close>) or rejects (\<open>Inl\<close>).
\<close>

type_synonym Blob = "nat list"

record Exporter =
  fetch_blob :: "string \<Rightarrow> js_error + Blob"
  generateAsync :: "(string \<times> Blob) list \<Rightarrow> js_error + Blob"
  today :: string

datatype export_outcome = NoExport | Downloaded string Blob | ZipFailed js_error

text \<open>
  \<^verbatim>\<open>name.replace(/\.[^/.]+$/, "")\<close>: a last dot followed, up to the end, by one or more
  characters that are neither a dot nor a slash is removed with what follows it.
\<close>

definition strip_ext :: "string \<Rightarrow> string" where
  "strip_ext n =
     (let ext = takeWhile (\<lambda>c. c \<noteq> CHR ''.'' \<and> c \<noteq> CHR ''/'') (rev n) in
      if ext \<noteq> [] \<and> length ext < length n \<and> rev n ! length ext = CHR ''.''
      then take (length n - length ext - 1) n
      else n)"

text \<open>A string is truthy when it is present and not empty.\<close>

definition truthy :: "string option \<Rightarrow> bool" where
  "truthy u = (case u of None \<Rightarrow> False | Some v \<Rightarrow> v \<noteq> [])"

text \<open>
  The loop of line 139 over the completed files; the archive is the list of its entries,
  and \<^verbatim>\<open>zip.file\<close> replaces the entry of a name already there.
\<close>

fun add_files ::
  "Exporter \<Rightarrow> ImageFile list \<Rightarrow> (string \<times> Blob) list \<Rightarrow> js_error + (string \<times> Blob) list" where
  "add_files env [] entries = Inr entries"
| "add_files env (file # rest) entries =
     (if truthy (processedUrl file) then
        (case fetch_blob env (the (processedUrl file)) of
           Inl e \<Rightarrow> Inl e
         | Inr blob \<Rightarrow>
             add_files env rest
               (AList.update (strip_ext (originalName file) @ ''_UPSCALED.png'') blob entries))
      else add_files env rest entries)"

text \<open>
  \<^verbatim>\<open>downloadAllZip\<close> (lines 130--164): the state afterwards, and what the user got: nothing
  (the early return), the download of a bundle, or the alert of the \<^verbatim>\<open>catch\<close> block.
\<close>

definition downloadAllZip ::
  "Exporter \<Rightarrow> 'a App_state_scheme \<Rightarrow> 'a App_state_scheme \<times> export_outcome" where
  "downloadAllZip env s =
     (let completedFiles = filter (\<lambda>f. status f = COMPLETED \<and> truthy (processedUrl f)) (files s) in
      if length completedFiles = 0 then (s, NoExport)
      else
        (s\<lparr>isZipping := False\<rparr>,
         case add_files env completedFiles [] of
           Inl e \<Rightarrow> ZipFailed e
         | Inr entries \<Rightarrow>
             (case generateAsync env entries of
                Inl e \<Rightarrow> ZipFailed e
              | Inr content \<Rightarrow> Downloaded (''UltraArt_Batch_'' @ today env @ ''.zip'') content)))"

section \<open>The resampler\<close>

text \<open>
  Modelled from the spec: the Resampler of section 4.2 of the specification. Its code
  (\<^verbatim>\<open>./services/imageProcessor\<close>) is not among the sources. A raster has a width, a height
  and a pixel at each position; the interpolation kernel, which the specification leaves
  open, is a parameter. A source with a zero dimension fails with \<open>DecodeError\<close>; factor 1
  passes the source through; any other factor gives a raster of the source's dimensions
  times the factor.
\<close>

type_synonym pixel = "nat \<times> nat \<times> nat \<times> nat"

record Raster =
  r_width :: nat
  r_height :: nat
  r_pixels :: "nat \<Rightarrow> nat \<Rightarrow> pixel"

datatype resample_error = DecodeError

definition Resampler ::
  "(bool \<Rightarrow> Raster \<Rightarrow> nat \<Rightarrow> nat \<Rightarrow> nat \<Rightarrow> pixel) \<Rightarrow> Raster \<Rightarrow> UpscaleFactor \<Rightarrow> bool
     \<Rightarrow> resample_error + Raster" where
  "Resampler interp src f style =
     (if r_width src = 0 \<or> r_height src = 0 then Inl DecodeError
      else if factor_value f = 1 then Inr src
      else Inr \<lparr>r_width = r_width src * factor_value f,
                r_height = r_height src * factor_value f,
                r_pixels = interp style src (factor_value f)\<rparr>)"

section \<open>Example data\<close>

text \<open>Concrete items, states and surroundings on which the theorems below are exercised.\<close>

definition example_item :: "string \<Rightarrow> string \<Rightarrow> ProcessingStatus \<Rightarrow> ImageFile" where
  "example_item i n st =
     \<lparr>fid = i, file_obj = \<lparr>name = n, ftype = ''image/png''\<rparr>, originalName = n,
      previewUrl = ''blob:'' @ i, status = st, settings = DEFAULT_SETTINGS,
      width = 0, height = 0, processedUrl = None, error = None, analysis = None\<rparr>"

definition example_state :: "ImageFile list \<Rightarrow> App_state" where
  "example_state fs =
     \<lparr>files = fs, globalSettings = DEFAULT_SETTINGS, isProcessingBatch = False, isZipping = False\<rparr>"

definition only_factor :: "UpscaleFactor \<Rightarrow> PartialSettings" where
  "only_factor v =
     \<lparr>p_upscaleFactor = Some v, p_dpi = None, p_preserveStyle = None, p_enabled = None\<rparr>"

definition png :: "string \<Rightarrow> File" where
  "png n = \<lparr>name = n, ftype = ''image/png''\<rparr>"

text \<open>A browser whose k-th draw is \<open>i\<close> followed by k times \<open>x\<close>: all draws differ.\<close>

definition counting_browser :: Browser where
  "counting_browser =
     \<lparr>random_id = (\<lambda>k. ''i'' @ replicate k CHR ''x''),
      createObjectURL = (\<lambda>k. ''blob:'' @ replicate k CHR ''u'')\<rparr>"

text \<open>A browser whose draws are all \<open>i\<close>, as when \<^verbatim>\<open>Math.random()\<close> returns 0.5 each time.\<close>

definition colliding_browser :: Browser where
  "colliding_browser =
     \<lparr>random_id = (\<lambda>k. ''i''),
      createObjectURL = (\<lambda>k. ''blob:'' @ replicate k CHR ''u'')\<rparr>"

text \<open>
  Two outcomes of \<^verbatim>\<open>processImage\<close>: one that rejects for the file of a given name and
  resolves for every other file, and one that always resolves.
\<close>

definition fails_on :: "string \<Rightarrow> ImageFile \<Rightarrow> process_result" where
  "fails_on n f =
     (if originalName f = n then Inl (JsError ''decode'') else Inr (''blob:out/'' @ originalName f))"

definition always_ok :: "ImageFile \<Rightarrow> process_result" where
  "always_ok f = Inr (''blob:out/'' @ originalName f)"

definition three_items :: "ImageFile list" where
  "three_items =
     [example_item ''a'' ''a.png'' IDLE, example_item ''b'' ''b.png'' ERROR,
      example_item ''c'' ''c.png'' IDLE]"

text \<open>Two images submitted to the empty list when both draws of the id are the same.\<close>

definition collided :: App_state where
  "collided =
     handleFiles 20 colliding_browser (Some [png ''a.png'', png ''b.png'']) initial_state"

text \<open>
  An exporter whose fetch rejects for the URLs listed and resolves to the bytes of the URL
  otherwise.
\<close>

definition example_exporter :: "string list \<Rightarrow> Exporter" where
  "example_exporter broken =
     \<lparr>fetch_blob = (\<lambda>url. if url \<in> set broken then Inl (JsError ''fetch'') else Inr (map of_char url)),
      generateAsync = (\<lambda>entries. Inr (concat (map snd entries))),
      today = ''2024-05-01''\<rparr>"

definition completed_item :: "string \<Rightarrow> string \<Rightarrow> string \<Rightarrow> ImageFile" where
  "completed_item i n url = (example_item i n COMPLETED)\<lparr>processedUrl := Some url\<rparr>"

text \<open>A raster of one colour, and the nearest-neighbour kernel.\<close>

definition flat_raster :: "nat \<Rightarrow> nat \<Rightarrow> Raster" where
  "flat_raster w h = \<lparr>r_width = w, r_height = h, r_pixels = (\<lambda>x y. (0, 0, 0, 0))\<rparr>"

definition nearest :: "bool \<Rightarrow> Raster \<Rightarrow> nat \<Rightarrow> nat \<Rightarrow> nat \<Rightarrow> pixel" where
  "nearest style src f x y = r_pixels src (x div f) (y div f)"

text \<open>
  Two images are submitted, the batch is started, the first file resolves and the second
  rejects. In \<open>awaiting_run\<close> the first file is still awaited, in \<open>collision_run\<close> the
  second.
\<close>

definition example_run :: "Browser \<Rightarrow> action list" where
  "example_run env =
     [HandleFiles env (Some [png ''a.png'', png ''b.png'']),
      ProcessBatch,
      ProcessImageSettled (Inr ''blob:out/a''),
      ProcessImageSettled (Inl (JsError ''decode''))]"

text \<open>
  An image is submitted and gets the id \<open>i\<close>, it is removed, and a second image is
  submitted whose draw is \<open>i\<close> again.
\<close>

definition redraw_run :: "action list" where
  "redraw_run =
     [HandleFiles colliding_browser (Some [png ''a.png'']),
      RemoveFile ''i'',
      HandleFiles colliding_browser (Some [png ''b.png''])]"

text \<open>An idle state with two items, and an item whose settings are not the default ones.\<close>

definition two_items_state :: Sys_state where
  "two_items_state =
     boot\<lparr>files := [example_item ''a'' ''a.png'' IDLE, example_item ''b'' ''b.png'' IDLE]\<rparr>"

definition custom_item :: ImageFile where
  "custom_item =
     (example_item ''a'' ''a.png'' IDLE)
       \<lparr>settings := \<lparr>upscaleFactor = X2, dpi = 72, preserveStyle = False, enabled = True\<rparr>\<rparr>"

definition awaiting_run :: "action list" where
  "awaiting_run =
     [HandleFiles counting_browser (Some [png ''a.png'', png ''b.png'']),
      ProcessBatch]"

definition collision_run :: "action list" where
  "collision_run =
     [HandleFiles colliding_browser (Some [png ''a.png'', png ''b.png'']),
      ProcessBatch,
      ProcessImageSettled (Inr ''blob:out/a'')]"

section \<open>Auxiliary facts\<close>

lemma map_if_fid_ident:
  "i \<notin> fid ` set fs \<Longrightarrow> map (\<lambda>f. if fid f = i then g f else f) fs = fs"
  by (induction fs) auto

lemma file_obj_new_image: "file_obj \<circ> new_image env g = snd"
  by (rule ext) (simp add: new_image_def)

lemma fid_finished [simp]: "fid (finished r f) = fid f"
  by (simp add: finished_def split: sum.splits)

lemma status_finished:
  "status (finished r f) = (if isl r then ERROR else COMPLETED)"
  by (simp add: finished_def split: sum.splits)

lemma process_one_map:
  "process_one pI q t = map (\<lambda>f. if fid f = fid q then finished (pI q) f else f) t"
  by (cases "pI q")
     (simp_all add: process_one_def settle_def set_processing_def set_completed_def
        set_error_def finished_def)

lemma fid_settled_by [simp]: "fid (settled_by pI qs f) = fid f"
  by (simp add: settled_by_def split: option.splits)

lemma status_settled_by:
  "status f \<noteq> PROCESSING \<Longrightarrow> status (settled_by pI qs f) \<noteq> PROCESSING"
  by (simp add: settled_by_def status_finished split: option.splits)

lemma batch_loop_distinct:
  "distinct (map fid qs) \<Longrightarrow> batch_loop pI qs t = map (settled_by pI qs) t"
proof (induction qs arbitrary: t)
  case Nil
  then show ?case by (simp add: settled_by_def)
next
  case (Cons q qs)
  have "settled_by pI qs (if fid f = fid q then finished (pI q) f else f)
          = settled_by pI (q # qs) f" for f
  proof (cases "fid f = fid q")
    case True
    with Cons.prems have "find (\<lambda>q'. fid q' = fid f) qs = None"
      by (auto simp: find_None_iff image_iff)
    with True show ?thesis by (simp add: settled_by_def)
  next
    case False
    then show ?thesis by (auto simp: settled_by_def)
  qed
  with Cons show ?case
    by (simp add: process_one_map comp_def)
qed

lemma find_filter_distinct:
  assumes "distinct (map fid fs)" "f \<in> set fs"
  shows "find (\<lambda>q. fid q = fid f) (filter P fs) = (if P f then Some f else None)"
  using assms
proof (induction fs)
  case Nil
  then show ?case by simp
next
  case (Cons a fs)
  then show ?case by (auto simp: find_None_iff image_iff)
qed

lemma find_fid_distinct:
  assumes "distinct (map fid fs)" "f \<in> set fs"
  shows "find (\<lambda>q. fid q = fid f) fs = Some f"
  using find_filter_distinct [OF assms, of "\<lambda>_. True"] by simp

lemma filter_fid_distinct:
  assumes "distinct (map fid fs)" "x \<in> set fs"
  shows "filter (\<lambda>f. fid f = fid x) fs = [x]"
  using assms
proof (induction fs)
  case Nil
  then show ?case by simp
next
  case (Cons a fs)
  show ?case
  proof (cases "x = a")
    case True
    with Cons.prems have "filter (\<lambda>f. fid f = fid a) fs = []"
      by (auto simp: filter_empty_conv image_iff)
    with True show ?thesis by simp
  next
    case False
    with Cons.prems have "x \<in> set fs" "fid a \<noteq> fid x"
      by (auto simp: image_iff)
    with Cons show ?thesis by simp
  qed
qed

lemma batch_loop_closed_form:
  assumes "distinct (map fid fs)"
  shows "batch_loop pI (filesToProcess fs) fs
       = map (\<lambda>f. if status f = IDLE \<or> status f = ERROR then finished (pI f) f else f) fs"
proof -
  have d: "distinct (map fid (filesToProcess fs))"
    using assms by (simp add: filesToProcess_def distinct_map_filter)
  have "settled_by pI (filesToProcess fs) f
      = (if status f = IDLE \<or> status f = ERROR then finished (pI f) f else f)"
    if "f \<in> set fs" for f
    using find_filter_distinct [OF assms that, of "\<lambda>f. status f = IDLE \<or> status f = ERROR"]
    by (simp add: settled_by_def filesToProcess_def)
  then show ?thesis
    by (simp add: batch_loop_distinct [OF d])
qed

lemma length_batch_trace: "length (batch_trace pI qs t) = 2 * length qs"
  by (induction qs arbitrary: t) (simp_all add: Let_def)

lemma batch_trace_nth:
  "k < length qs \<Longrightarrow>
     batch_trace pI qs t ! (2 * k) = set_processing (fid (qs ! k)) (batch_loop pI (take k qs) t)
   \<and> batch_trace pI qs t ! (2 * k + 1)
       = settle (pI (qs ! k)) (qs ! k) (batch_trace pI qs t ! (2 * k))
   \<and> batch_trace pI qs t ! (2 * k + 1) = batch_loop pI (take (Suc k) qs) t"
proof (induction qs arbitrary: k t)
  case Nil
  then show ?case by simp
next
  case (Cons q qs)
  show ?case
  proof (cases k)
    case 0
    then show ?thesis by (simp add: Let_def process_one_def)
  next
    case (Suc j)
    with Cons.prems have j: "j < length qs" by simp
    define t' where "t' = process_one pI q t"
    have a: "batch_trace pI (q # qs) t ! (2 * k) = batch_trace pI qs t' ! (2 * j)"
      "batch_trace pI (q # qs) t ! (2 * k + 1) = batch_trace pI qs t' ! (2 * j + 1)"
      "batch_loop pI (take k (q # qs)) t = batch_loop pI (take j qs) t'"
      "batch_loop pI (take (Suc k) (q # qs)) t = batch_loop pI (take (Suc j) qs) t'"
      "(q # qs) ! k = qs ! j"
      using Suc by (simp_all add: Let_def process_one_def t'_def)
    show ?thesis
      unfolding a by (rule Cons.IH [OF j, of t'])
  qed
qed

lemma filter_exactly_one:
  assumes "k < length xs" "P (xs ! k)" "\<forall>j<length xs. j \<noteq> k \<longrightarrow> \<not> P (xs ! j)"
  shows "filter P xs = [xs ! k]"
proof -
  have "filter P (take k xs) = []"
    using assms by (auto simp: filter_empty_conv in_set_conv_nth)
  moreover have "filter P (drop (Suc k) xs) = []"
    using assms by (auto simp: filter_empty_conv in_set_conv_nth)
  moreover have "xs = take k xs @ xs ! k # drop (Suc k) xs"
    using assms(1) by (rule id_take_nth_drop)
  ultimately show ?thesis
    using assms(2) by (metis append_Nil filter.simps(2) filter_append)
qed

lemma nth_not_in_take:
  assumes "distinct xs" "k < length xs"
  shows "xs ! k \<notin> set (take k xs)"
  using assms by (auto simp: in_set_conv_nth nth_eq_iff_index_eq)

lemma count_status_all:
  "(\<forall>f\<in>set fs. status f = st) \<Longrightarrow> count_status st fs = length fs"
  by (simp add: count_status_def)

lemma settled_by_before:
  assumes "distinct (map fid qs)" "k < length qs"
  shows "settled_by pI (take k qs) (qs ! k) = qs ! k"
proof -
  have "map fid qs ! k \<notin> set (take k (map fid qs))"
    using assms by (intro nth_not_in_take) simp_all
  then have "\<forall>x\<in>set (take k qs). fid x \<noteq> fid (qs ! k)"
    using assms(2) by (auto simp: take_map image_iff)
  then have "find (\<lambda>q. fid q = fid (qs ! k)) (take k qs) = None"
    by (auto simp: find_None_iff)
  then show ?thesis by (simp add: settled_by_def)
qed

lemma settled_by_after:
  assumes "distinct (map fid qs)" "k < length qs"
  shows "settled_by pI (take (Suc k) qs) (qs ! k) = finished (pI (qs ! k)) (qs ! k)"
proof -
  have "distinct (map fid (take (Suc k) qs))"
    using assms(1) by (simp add: take_map [symmetric])
  moreover have "qs ! k \<in> set (take (Suc k) qs)"
    using assms(2) by (simp add: take_Suc_conv_app_nth)
  ultimately have "find (\<lambda>q. fid q = fid (qs ! k)) (take (Suc k) qs) = Some (qs ! k)"
    by (rule find_fid_distinct)
  then show ?thesis by (simp add: settled_by_def)
qed

lemma trace_awaiting:
  assumes ids: "distinct (map fid fs)"
    and idle: "\<forall>f\<in>set fs. status f \<noteq> PROCESSING"
    and k: "k < length (filesToProcess fs)"
  shows "filter (\<lambda>f. status f = PROCESSING) (batch_trace pI (filesToProcess fs) fs ! (2 * k))
           = [(filesToProcess fs ! k)\<lparr>status := PROCESSING\<rparr>]"
proof -
  define q where "q = filesToProcess fs"
  define h where "h = (\<lambda>f. if fid f = fid (q ! k)
                            then (settled_by pI (take k q) f)\<lparr>status := PROCESSING\<rparr>
                            else settled_by pI (take k q) f)"
  have dq: "distinct (map fid q)"
    using ids by (simp add: q_def filesToProcess_def distinct_map_filter)
  then have dt: "distinct (map fid (take k q))"
    by (simp add: take_map [symmetric])
  have mem: "q ! k \<in> set fs"
    using k nth_mem [of k q] by (auto simp: q_def filesToProcess_def)
  have "batch_trace pI q fs ! (2 * k) = set_processing (fid (q ! k)) (batch_loop pI (take k q) fs)"
    using batch_trace_nth [of k q pI fs] k unfolding q_def by blast
  also have "\<dots> = map h fs"
    by (simp add: batch_loop_distinct [OF dt] set_processing_def h_def comp_def)
  finally have tr: "batch_trace pI q fs ! (2 * k) = map h fs" .
  have "filter ((\<lambda>f. status f = PROCESSING) \<circ> h) fs = filter (\<lambda>f. fid f = fid (q ! k)) fs"
    using idle by (intro filter_cong) (auto simp: h_def status_settled_by)
  also have "\<dots> = [q ! k]"
    using ids mem by (rule filter_fid_distinct)
  finally have "filter (\<lambda>f. status f = PROCESSING) (map h fs) = [h (q ! k)]"
    by (simp add: filter_map)
  moreover have "h (q ! k) = (q ! k)\<lparr>status := PROCESSING\<rparr>"
    using settled_by_before [OF dq, of k pI] k by (simp add: h_def q_def)
  ultimately show ?thesis
    using tr by (simp add: q_def)
qed

lemma trace_awaiting_item:
  assumes ids: "distinct (map fid fs)"
    and k: "k < length (filesToProcess fs)"
  shows "filter (\<lambda>f. fid f = fid (filesToProcess fs ! k))
            (batch_trace pI (filesToProcess fs) fs ! (2 * k))
           = [(filesToProcess fs ! k)\<lparr>status := PROCESSING\<rparr>]"
proof -
  define q where "q = filesToProcess fs"
  define h where "h = (\<lambda>f. if fid f = fid (q ! k)
                            then (settled_by pI (take k q) f)\<lparr>status := PROCESSING\<rparr>
                            else settled_by pI (take k q) f)"
  have dq: "distinct (map fid q)"
    using ids by (simp add: q_def filesToProcess_def distinct_map_filter)
  then have dt: "distinct (map fid (take k q))"
    by (simp add: take_map [symmetric])
  have mem: "q ! k \<in> set fs"
    using k nth_mem [of k q] by (auto simp: q_def filesToProcess_def)
  have "batch_trace pI q fs ! (2 * k) = set_processing (fid (q ! k)) (batch_loop pI (take k q) fs)"
    using batch_trace_nth [of k q pI fs] k unfolding q_def by blast
  also have "\<dots> = map h fs"
    by (simp add: batch_loop_distinct [OF dt] set_processing_def h_def comp_def)
  finally have tr: "batch_trace pI q fs ! (2 * k) = map h fs" .
  have "filter ((\<lambda>f. fid f = fid (q ! k)) \<circ> h) fs = filter (\<lambda>f. fid f = fid (q ! k)) fs"
    by (intro filter_cong) (auto simp: h_def)
  also have "\<dots> = [q ! k]"
    using ids mem by (rule filter_fid_distinct)
  finally have "filter (\<lambda>f. fid f = fid (q ! k)) (map h fs) = [h (q ! k)]"
    by (simp add: filter_map)
  moreover have "h (q ! k) = (q ! k)\<lparr>status := PROCESSING\<rparr>"
    using settled_by_before [OF dq, of k pI] k by (simp add: h_def q_def)
  ultimately show ?thesis
    using tr by (simp add: q_def)
qed

lemma trace_settled_item:
  assumes ids: "distinct (map fid fs)"
    and k: "k < length (filesToProcess fs)"
  shows "filter (\<lambda>f. fid f = fid (filesToProcess fs ! k))
            (batch_trace pI (filesToProcess fs) fs ! (2 * k + 1))
           = [finished (pI (filesToProcess fs ! k)) (filesToProcess fs ! k)]"
proof -
  define q where "q = filesToProcess fs"
  have dq: "distinct (map fid q)"
    using ids by (simp add: q_def filesToProcess_def distinct_map_filter)
  then have dt: "distinct (map fid (take (Suc k) q))"
    by (simp add: take_map [symmetric])
  have mem: "q ! k \<in> set fs"
    using k nth_mem [of k q] by (auto simp: q_def filesToProcess_def)
  have "batch_trace pI q fs ! (2 * k + 1) = batch_loop pI (take (Suc k) q) fs"
    using batch_trace_nth [of k q pI fs] k unfolding q_def by blast
  also have "\<dots> = map (settled_by pI (take (Suc k) q)) fs"
    by (rule batch_loop_distinct [OF dt])
  finally have tr: "batch_trace pI q fs ! (2 * k + 1) = map (settled_by pI (take (Suc k) q)) fs" .
  have "filter (\<lambda>f. fid f = fid (q ! k)) (map (settled_by pI (take (Suc k) q)) fs)
          = map (settled_by pI (take (Suc k) q)) (filter (\<lambda>f. fid f = fid (q ! k)) fs)"
    by (simp add: filter_map comp_def)
  also have "\<dots> = [settled_by pI (take (Suc k) q) (q ! k)]"
    by (simp add: filter_fid_distinct [OF ids mem])
  also have "\<dots> = [finished (pI (q ! k)) (q ! k)]"
    using settled_by_after [OF dq, of k pI] k by (simp add: q_def)
  finally show ?thesis
    using tr by (simp add: q_def)
qed

lemma trace_settled_none:
  assumes ids: "distinct (map fid fs)"
    and idle: "\<forall>f\<in>set fs. status f \<noteq> PROCESSING"
    and k: "k < length (filesToProcess fs)"
  shows "filter (\<lambda>f. status f = PROCESSING) (batch_trace pI (filesToProcess fs) fs ! (2 * k + 1)) = []"
proof -
  define q where "q = filesToProcess fs"
  have "distinct (map fid q)"
    using ids by (simp add: q_def filesToProcess_def distinct_map_filter)
  then have dt: "distinct (map fid (take (Suc k) q))"
    by (simp add: take_map [symmetric])
  have "batch_trace pI q fs ! (2 * k + 1) = batch_loop pI (take (Suc k) q) fs"
    using batch_trace_nth [of k q pI fs] k unfolding q_def by blast
  also have "\<dots> = map (settled_by pI (take (Suc k) q)) fs"
    by (rule batch_loop_distinct [OF dt])
  finally show ?thesis
    using idle by (auto simp: q_def filter_empty_conv status_settled_by)
qed

lemma error_finished:
  "error f = Some ''Processing failed'' \<Longrightarrow> error (finished r f) = Some ''Processing failed''"
  by (simp add: finished_def split: sum.splits)

lemma batch_loop_nth:
  assumes "i < length t"
  shows "length (batch_loop pI qs t) = length t
       \<and> fid (batch_loop pI qs t ! i) = fid (t ! i)
       \<and> (error (t ! i) = Some ''Processing failed'' \<longrightarrow>
            error (batch_loop pI qs t ! i) = Some ''Processing failed'')"
  using assms
proof (induction qs arbitrary: t)
  case Nil
  then show ?case by simp
next
  case (Cons q qs)
  define t' where "t' = process_one pI q t"
  have t': "length t' = length t" "fid (t' ! i) = fid (t ! i)"
    "error (t ! i) = Some ''Processing failed'' \<Longrightarrow> error (t' ! i) = Some ''Processing failed''"
    using Cons.prems by (simp_all add: t'_def process_one_map error_finished)
  with Cons.IH [of t'] Cons.prems show ?case
    by (simp add: t'_def [symmetric])
qed

lemma add_files_fails:
  assumes "f \<in> set cs" "truthy (processedUrl f)" "isl (fetch_blob env (the (processedUrl f)))"
  shows "isl (add_files env cs entries)"
  using assms
proof (induction cs arbitrary: entries)
  case Nil
  then show ?case by simp
next
  case (Cons c cs)
  then show ?case
    by (cases "f = c") (auto split: sum.splits)
qed


lemma fid_new_image: "fid \<circ> new_image env g = random_id env \<circ> fst"
  by (rule ext) (simp add: new_image_def)

lemma oic_Cons [simp]:
  "output_iff_completed (f # fs) \<longleftrightarrow>
     (has_output f = (status f = COMPLETED)) \<and> output_iff_completed fs"
  by (simp add: output_iff_completed_def)

lemma oic_set:
  "output_iff_completed fs \<longleftrightarrow> (\<forall>f\<in>set fs. (processedUrl f \<noteq> None) = (status f = COMPLETED))"
  by (simp add: output_iff_completed_def has_output_def list_all_iff)

lemma inv_map:
  assumes "\<And>f. fid (g f) = fid f \<and> status (g f) = status f \<and> processedUrl (g f) = processedUrl f"
  shows "output_iff_completed fs \<Longrightarrow> output_iff_completed (map g fs)"
    and "queue_ok qs fs \<Longrightarrow> queue_ok qs (map g fs)"
  using assms by (auto simp: oic_set queue_ok_def)

lemma inv_subset:
  assumes "set fs' \<subseteq> set fs"
  shows "output_iff_completed fs \<Longrightarrow> output_iff_completed fs'"
    and "queue_ok qs fs \<Longrightarrow> queue_ok qs fs'"
  using assms by (auto simp: oic_set queue_ok_def)

lemma inv_append:
  assumes "\<forall>f\<in>set new. status f = IDLE \<and> processedUrl f = None"
  shows "output_iff_completed fs \<Longrightarrow> output_iff_completed (fs @ new)"
    and "queue_ok qs fs \<Longrightarrow> queue_ok qs (fs @ new)"
  using assms by (auto simp: oic_set queue_ok_def)

lemma inv_start:
  assumes "distinct (map fid fs)"
  shows "queue_ok (filesToProcess fs) fs"
proof -
  have "status f \<noteq> COMPLETED"
    if "q \<in> set (filesToProcess fs)" "f \<in> set fs" "fid f = fid q" for q f
  proof -
    from that(1) have q: "q \<in> set fs" "status q = IDLE \<or> status q = ERROR"
      by (auto simp: filesToProcess_def)
    from assms q(1) that(2,3) have "f = q"
      by (metis distinct_map inj_onD)
    with q(2) show ?thesis by auto
  qed
  then show ?thesis
    using assms by (auto simp: queue_ok_def filesToProcess_def distinct_map_filter)
qed

lemma inv_set_processing:
  assumes "queue_ok (q # rest) fs" "output_iff_completed fs"
  shows "output_iff_completed (set_processing (fid q) fs)"
    and "queue_ok (q # rest) (set_processing (fid q) fs)"
  using assms by (auto simp: oic_set queue_ok_def set_processing_def)

lemma inv_settle:
  assumes "queue_ok (c # rest) fs" "output_iff_completed fs"
  shows "output_iff_completed (settle r c fs)"
    and "queue_ok rest (settle r c fs)"
  using assms
  by (auto simp: oic_set queue_ok_def settle_def set_completed_def set_error_def image_iff
      split: sum.splits)

lemma inv_next_file:
  assumes "output_iff_completed (files s)" "queue_ok (pending s) (files s)" "inflight s = None"
    and "isProcessingBatch s"
  shows "batch_inv (next_file s)"
proof (cases "pending s")
  case Nil
  with assms show ?thesis
    by (simp add: next_file_def batch_inv_def batch_queue_def)
next
  case (Cons q rest)
  with assms inv_set_processing [of q rest "files s"] show ?thesis
    by (simp add: next_file_def batch_inv_def batch_queue_def)
qed

lemma status_new_image:
  "\<forall>f\<in>set (map (new_image env g) ps). status f = IDLE \<and> processedUrl f = None"
  by (simp add: new_image_def)

lemma inv_exec:
  assumes "batch_inv s" "distinct (map fid (files s))"
  shows "batch_inv (exec M a s)"
proof (cases a)
  case (HandleFiles env newFiles)
  with assms(1) show ?thesis
    using inv_append [OF status_new_image]
    by (auto simp: handleFiles_def Let_def batch_inv_def batch_queue_def split: option.splits)
next
  case (ImgOnload pid w h)
  with assms(1) show ?thesis
    by (simp add: batch_inv_def batch_queue_def img_onload_def inv_map)
next
  case (UpdateGlobalSettings d)
  with assms(1) show ?thesis
    by (simp add: batch_inv_def batch_queue_def updateGlobalSettings_def inv_map)
next
  case (UpdateFileSettings i d)
  with assms(1) show ?thesis
    by (simp add: batch_inv_def batch_queue_def updateFileSettings_def inv_map)
next
  case (UpdateFileAnalysis i t)
  with assms(1) show ?thesis
    by (simp add: batch_inv_def batch_queue_def updateFileAnalysis_def inv_map)
next
  case (RemoveFile i)
  with assms(1) show ?thesis
    using inv_subset [of "removeFile i (files s)" "files s"]
    by (simp add: batch_inv_def batch_queue_def removeFile_def)
next
  case ClearAll
  with assms(1) show ?thesis
    using inv_subset [of "[]" "files s"]
    by (simp add: batch_inv_def batch_queue_def)
next
  case ProcessBatch
  show ?thesis
  proof (cases "isProcessingBatch s \<or> list_all (\<lambda>f. status f = COMPLETED) (files s)")
    case True
    with assms(1) ProcessBatch show ?thesis by simp
  next
    case False
    with assms(1) have idle: "inflight s = None"
      by (simp add: batch_inv_def)
    have "batch_inv (next_file (s\<lparr>isProcessingBatch := True, pending := filesToProcess (files s)\<rparr>))"
      using assms(1) idle inv_start [OF assms(2)]
      by (intro inv_next_file) (simp_all add: batch_inv_def)
    with False ProcessBatch show ?thesis by simp
  qed
next
  case (ProcessImageSettled r)
  show ?thesis
  proof (cases "inflight s")
    case None
    with assms(1) ProcessImageSettled show ?thesis by simp
  next
    case (Some c)
    with assms(1) have "queue_ok (c # pending s) (files s)" "output_iff_completed (files s)"
      and busy: "isProcessingBatch s"
      by (auto simp: batch_inv_def batch_queue_def)
    from inv_settle [OF this(1,2), of r] busy
    have "batch_inv (next_file (s\<lparr>files := settle r c (files s), inflight := None\<rparr>))"
      by (intro inv_next_file) simp_all
    with Some ProcessImageSettled show ?thesis by simp
  qed
qed

lemma inv_run:
  "batch_inv s \<Longrightarrow> ids_distinct_along M as s \<Longrightarrow> batch_inv (run M as s)"
proof (induction as arbitrary: s)
  case Nil
  then show ?case by simp
next
  case (Cons a as)
  then show ?case by (simp add: inv_exec)
qed

lemma batch_inv_boot: "batch_inv boot"
  by (simp add: batch_inv_def boot_def batch_queue_def queue_ok_def output_iff_completed_def)

text \<open>
  The function \<open>processBatch\<close> is the run of the interleaved system in which the batch is
  started and its files settle with nothing in between.
\<close>

lemma run_settlements:
  assumes "inflight s = None"
  shows "files (run M (settlements pI (pending s)) (next_file s))
           = batch_loop pI (pending s) (files s)
       \<and> \<not> isProcessingBatch (run M (settlements pI (pending s)) (next_file s))"
  using assms
proof (induction "pending s" arbitrary: s)
  case Nil
  then show ?case
    by (simp add: settlements_def next_file_def flip: Nil.hyps)
next
  case (Cons q rest)
  define s' where
    "s' = s\<lparr>files := process_one pI q (files s), pending := rest, inflight := None\<rparr>"
  have "rest = pending s'" "inflight s' = None"
    by (simp_all add: s'_def)
  from Cons.hyps(1) [OF this]
  have "files (run M (settlements pI rest) (next_file s')) = batch_loop pI rest (files s')
      \<and> \<not> isProcessingBatch (run M (settlements pI rest) (next_file s'))"
    by (simp add: s'_def)
  moreover have "run M (settlements pI (pending s)) (next_file s)
                   = run M (settlements pI rest) (next_file s')"
    by (cases rest)
       (simp_all add: settlements_def next_file_def s'_def process_one_def flip: Cons.hyps(2))
  ultimately show ?case
    by (simp add: s'_def flip: Cons.hyps(2))
qed

lemma run_processBatch:
  assumes "\<not> isProcessingBatch s" "\<not> list_all (\<lambda>f. status f = COMPLETED) (files s)"
    and "inflight s = None"
  shows "files (run M (ProcessBatch # settlements pI (filesToProcess (files s))) s)
           = files (processBatch pI s)"
  using assms
    run_settlements [of "s\<lparr>isProcessingBatch := True, pending := filesToProcess (files s)\<rparr>" M pI]
  by (simp add: processBatch_def)

text \<open>
  Whenever no batch is in progress, no item of the list is PROCESSING: a run of
  \<^verbatim>\<open>processBatch\<close> starts on such a list.
\<close>

lemma processing_inv_next_file:
  assumes "\<forall>f\<in>set (files s). status f \<noteq> PROCESSING" "isProcessingBatch s"
    and "inflight s = None"
  shows "processing_inv (next_file s)"
  using assms
  by (cases "pending s") (auto simp: next_file_def processing_inv_def set_processing_def)

lemma processing_inv_exec:
  assumes "processing_inv s"
  shows "processing_inv (exec M a s)"
proof (cases a)
  case (HandleFiles env newFiles)
  with assms show ?thesis
    by (auto simp: handleFiles_def Let_def processing_inv_def new_image_def split: option.splits)
next
  case (ImgOnload pid w h)
  with assms show ?thesis
    by (auto simp: processing_inv_def img_onload_def)
next
  case (UpdateGlobalSettings d)
  with assms show ?thesis
    by (auto simp: processing_inv_def updateGlobalSettings_def)
next
  case (UpdateFileSettings i d)
  with assms show ?thesis
    by (auto simp: processing_inv_def updateFileSettings_def)
next
  case (UpdateFileAnalysis i t)
  with assms show ?thesis
    by (auto simp: processing_inv_def updateFileAnalysis_def)
next
  case (RemoveFile i)
  with assms show ?thesis
    by (auto simp: processing_inv_def removeFile_def)
next
  case ClearAll
  with assms show ?thesis
    by (auto simp: processing_inv_def)
next
  case ProcessBatch
  show ?thesis
  proof (cases "isProcessingBatch s \<or> list_all (\<lambda>f. status f = COMPLETED) (files s)")
    case True
    with assms ProcessBatch show ?thesis by simp
  next
    case False
    with assms have "\<forall>f\<in>set (files s). status f \<noteq> PROCESSING" "inflight s = None"
      by (auto simp: processing_inv_def)
    then have "processing_inv
        (next_file (s\<lparr>isProcessingBatch := True, pending := filesToProcess (files s)\<rparr>))"
      by (intro processing_inv_next_file) simp_all
    with False ProcessBatch show ?thesis by simp
  qed
next
  case (ProcessImageSettled r)
  show ?thesis
  proof (cases "inflight s")
    case None
    with assms ProcessImageSettled show ?thesis by simp
  next
    case (Some c)
    with assms have busy: "isProcessingBatch s"
      and "\<forall>f\<in>set (files s). status f = PROCESSING \<longrightarrow> fid f = fid c"
      by (auto simp: processing_inv_def)
    then have "\<forall>f\<in>set (settle r c (files s)). status f \<noteq> PROCESSING"
      by (auto simp: settle_def set_completed_def set_error_def split: sum.splits)
    with busy have "processing_inv (next_file (s\<lparr>files := settle r c (files s), inflight := None\<rparr>))"
      by (intro processing_inv_next_file) simp_all
    with Some ProcessImageSettled show ?thesis by simp
  qed
qed

lemma processing_inv_run: "processing_inv s \<Longrightarrow> processing_inv (run M as s)"
  by (induction as arbitrary: s) (simp_all add: processing_inv_exec)

lemma idle_no_processing:
  assumes "\<not> isProcessingBatch (run M as boot)"
  shows "\<forall>f\<in>set (files (run M as boot)). status f \<noteq> PROCESSING"
proof -
  have "processing_inv boot"
    by (simp add: processing_inv_def boot_def)
  from processing_inv_run [OF this, of M as] assms show ?thesis
    by (auto simp: processing_inv_def)
qed

lemma processing_inv_boot: "processing_inv boot"
  by (simp add: processing_inv_def boot_def)

lemma length_filter_fid_le:
  "distinct (map fid fs) \<Longrightarrow> length (filter (\<lambda>f. fid f = i) fs) \<le> 1"
proof (induction fs)
  case Nil
  then show ?case by simp
next
  case (Cons a fs)
  show ?case
  proof (cases "fid a = i")
    case True
    with Cons.prems have "filter (\<lambda>f. fid f = i) fs = []"
      by (auto simp: filter_empty_conv image_iff)
    with True show ?thesis by simp
  next
    case False
    with Cons show ?thesis by simp
  qed
qed

lemma length_filter_mono:
  "(\<forall>x\<in>set xs. P x \<longrightarrow> Q x) \<Longrightarrow> length (filter P xs) \<le> length (filter Q xs)"
  by (induction xs) auto

lemma one_processing:
  assumes "processing_inv s" "distinct (map fid (files s))"
  shows "count_status PROCESSING (files s) \<le> 1"
proof (cases "inflight s")
  case None
  with assms(1) have "filter (\<lambda>f. status f = PROCESSING) (files s) = []"
    by (auto simp: processing_inv_def filter_empty_conv)
  then show ?thesis by (simp add: count_status_def)
next
  case (Some c)
  with assms(1) have "\<forall>f\<in>set (files s). status f = PROCESSING \<longrightarrow> fid f = fid c"
    by (auto simp: processing_inv_def)
  then have "length (filter (\<lambda>f. status f = PROCESSING) (files s))
               \<le> length (filter (\<lambda>f. fid f = fid c) (files s))"
    by (rule length_filter_mono)
  also have "\<dots> \<le> 1"
    using assms(2) by (rule length_filter_fid_le)
  finally show ?thesis by (simp add: count_status_def)
qed

lemma ids_distinct_along_final:
  "ids_distinct_along M as s \<Longrightarrow> distinct (map fid (files (run M as s)))"
  by (induction as arbitrary: s) simp_all

text \<open>
  An id that no item of the list has stays absent as long as no submission draws it.
\<close>

lemma map_fid_new_images:
  "map fid (map (new_image env g) (enumerate 0 xs)) = map (random_id env) [0..<length xs]"
proof -
  have "map fid (map (new_image env g) (enumerate 0 xs))
          = map (fid \<circ> new_image env g) (enumerate 0 xs)"
    by simp
  also have "\<dots> = map (random_id env) (map fst (enumerate 0 xs))"
    by (simp only: fid_new_image map_map)
  also have "\<dots> = map (random_id env) [0..<length xs]"
    by simp
  finally show ?thesis .
qed

lemma map_fid_if:
  "(\<And>f. fid (g f) = fid f) \<Longrightarrow> map fid (map (\<lambda>f. if c f then g f else f) fs) = map fid fs"
  by (induction fs) simp_all

lemma map_fid_settle: "map fid (settle r c fs) = map fid fs"
  by (cases r) (simp_all add: settle_def set_completed_def set_error_def map_fid_if del: map_map)

lemma map_fid_set_processing: "map fid (set_processing i fs) = map fid fs"
  by (simp add: set_processing_def map_fid_if del: map_map)

lemma map_fid_next_file: "map fid (files (next_file s)) = map fid (files s)"
  by (cases "pending s") (simp_all add: next_file_def map_fid_set_processing)

lemma no_id_exec:
  assumes "pid \<notin> set (map fid (files s))" "\<not> draws_id pid a"
  shows "pid \<notin> set (map fid (files (exec M a s)))"
proof (cases a)
  case (HandleFiles env newFiles)
  show ?thesis
  proof (cases newFiles)
    case None
    with HandleFiles assms(1) show ?thesis by (simp add: handleFiles_def)
  next
    case (Some nf)
    with HandleFiles assms show ?thesis
      by (simp add: handleFiles_def Let_def map_fid_new_images del: map_map set_map)
  qed
next
  case (ImgOnload i w h)
  with assms(1) show ?thesis
    by (simp add: img_onload_def map_fid_if del: map_map)
next
  case (UpdateGlobalSettings d)
  with assms(1) show ?thesis
    by (simp add: updateGlobalSettings_def map_fid_if del: map_map)
next
  case (UpdateFileSettings i d)
  with assms(1) show ?thesis
    by (simp add: updateFileSettings_def map_fid_if del: map_map)
next
  case (UpdateFileAnalysis i t)
  with assms(1) show ?thesis
    by (simp add: updateFileAnalysis_def map_fid_if del: map_map)
next
  case (RemoveFile i)
  with assms(1) show ?thesis
    by (auto simp: removeFile_def)
next
  case ClearAll
  then show ?thesis by simp
next
  case ProcessBatch
  with assms(1) show ?thesis
    by (simp add: map_fid_next_file del: set_map)
next
  case (ProcessImageSettled r)
  with assms(1) show ?thesis
    by (cases "inflight s") (simp_all add: map_fid_next_file map_fid_settle del: set_map)
qed

lemma no_id_run:
  "pid \<notin> set (map fid (files s)) \<Longrightarrow> list_all (\<lambda>a. \<not> draws_id pid a) as
     \<Longrightarrow> pid \<notin> set (map fid (files (run M as s)))"
proof (induction as arbitrary: s)
  case Nil
  then show ?case by simp
next
  case (Cons a as)
  from Cons.prems have "pid \<notin> set (map fid (files (exec M a s)))"
    by (intro no_id_exec) simp_all
  with Cons show ?case by simp
qed

section \<open>The batch run: failure isolation\<close>

text \<open>
  C1. Take a list whose ids are pairwise distinct, all of whose N items are IDLE or ERROR,
  and a \<^verbatim>\<open>processImage\<close> that rejects for the item at position k and resolves for every
  other item. Then \<^verbatim>\<open>processBatch\<close> leaves every other item COMPLETED with its result
  attached, and the item at k in ERROR with the message \<open>Processing failed\<close>: N - 1
  items are COMPLETED and one is in ERROR. The next run selects that item alone, and when
  its \<^verbatim>\<open>processImage\<close> now resolves it becomes COMPLETED with the new result, so that all
  N items are COMPLETED.
\<close>

theorem processBatch_failure_isolation:
  assumes ids: "distinct (map fid (files s))"
    and elig: "\<forall>f\<in>set (files s). status f = IDLE \<or> status f = ERROR"
    and k: "k < length (files s)"
    and fails: "isl (pI (files s ! k))"
    and others: "\<forall>j<length (files s). j \<noteq> k \<longrightarrow> \<not> isl (pI (files s ! j))"
  shows "length (files (processBatch pI s)) = length (files s)
       \<and> (\<forall>j<length (files s). j \<noteq> k \<longrightarrow>
            status (files (processBatch pI s) ! j) = COMPLETED
          \<and> processedUrl (files (processBatch pI s) ! j) = Some (projr (pI (files s ! j))))
       \<and> status (files (processBatch pI s) ! k) = ERROR
       \<and> error (files (processBatch pI s) ! k) = Some ''Processing failed''
       \<and> count_status COMPLETED (files (processBatch pI s)) = length (files s) - 1
       \<and> count_status ERROR (files (processBatch pI s)) = 1
       \<and> filesToProcess (files (processBatch pI s)) = [files (processBatch pI s) ! k]
       \<and> (\<forall>u. pI2 (files (processBatch pI s) ! k) = Inr u \<longrightarrow>
            files (processBatch pI2 (processBatch pI s)) ! k
              = (files (processBatch pI s) ! k)\<lparr>status := COMPLETED, processedUrl := Some u\<rparr>
          \<and> count_status COMPLETED (files (processBatch pI2 (processBatch pI s)))
              = length (files s))"
proof -
  define fs where "fs = files s"
  define fs1 where "fs1 = files (processBatch pI s)"
  have fs1: "fs1 = map (\<lambda>f. finished (pI f) f) fs"
    using elig batch_loop_closed_form [OF ids, of pI]
    by (simp add: fs1_def fs_def processBatch_def)
  have len: "length fs1 = length fs"
    by (simp add: fs1)
  have nth: "fs1 ! j = finished (pI (fs ! j)) (fs ! j)" if "j < length fs" for j
    using that by (simp add: fs1)
  have st_k: "status (fs1 ! k) = ERROR" and err_k: "error (fs1 ! k) = Some ''Processing failed''"
    using k fails nth [of k] by (auto simp: fs_def finished_def split: sum.splits)
  have st_j: "status (fs1 ! j) = COMPLETED"
    and url_j: "processedUrl (fs1 ! j) = Some (projr (pI (fs ! j)))"
    if "j < length fs" "j \<noteq> k" for j
    using that others nth [of j] by (auto simp: fs_def finished_def split: sum.splits)
  have todo: "filter (\<lambda>f. status f = IDLE \<or> status f = ERROR) fs1 = [fs1 ! k]"
  proof (rule filter_exactly_one)
    show "k < length fs1" using k by (simp add: len fs_def)
    show "status (fs1 ! k) = IDLE \<or> status (fs1 ! k) = ERROR" using st_k by simp
    show "\<forall>j<length fs1. j \<noteq> k \<longrightarrow> \<not> (status (fs1 ! j) = IDLE \<or> status (fs1 ! j) = ERROR)"
      using st_j by (simp add: len)
  qed
  have errs: "filter (\<lambda>f. status f = ERROR) fs1 = [fs1 ! k]"
  proof (rule filter_exactly_one)
    show "k < length fs1" using k by (simp add: len fs_def)
    show "status (fs1 ! k) = ERROR" by (rule st_k)
    show "\<forall>j<length fs1. j \<noteq> k \<longrightarrow> status (fs1 ! j) \<noteq> ERROR"
      using st_j by (simp add: len)
  qed
  have n_err: "count_status ERROR fs1 = 1"
    by (simp add: count_status_def errs)
  have "status f = COMPLETED \<or> status f = ERROR" if "f \<in> set fs1" for f
    using that by (auto simp: fs1 status_finished)
  then have "filter (\<lambda>f. \<not> status f = ERROR) fs1 = filter (\<lambda>f. status f = COMPLETED) fs1"
    by (intro filter_cong) auto
  with sum_length_filter_compl [of "\<lambda>f. status f = ERROR" fs1]
  have n_ok: "count_status COMPLETED fs1 = length fs - 1"
    using n_err by (simp add: count_status_def len)
  have ids1: "distinct (map fid (files (processBatch pI s)))"
    using ids by (simp add: fs1 [unfolded fs1_def fs_def] comp_def)
  have retry: "files (processBatch pI2 (processBatch pI s)) ! k
                 = (fs1 ! k)\<lparr>status := COMPLETED, processedUrl := Some u\<rparr>
             \<and> count_status COMPLETED (files (processBatch pI2 (processBatch pI s))) = length fs"
    if u: "pI2 (fs1 ! k) = Inr u" for u
  proof -
    define fs2 where "fs2 = files (processBatch pI2 (processBatch pI s))"
    have fs2: "fs2 = map (\<lambda>f. if status f = IDLE \<or> status f = ERROR
                                then finished (pI2 f) f else f) fs1"
      using batch_loop_closed_form [OF ids1, of pI2]
      by (simp add: fs2_def fs1_def processBatch_def)
    have "fs2 ! k = (fs1 ! k)\<lparr>status := COMPLETED, processedUrl := Some u\<rparr>"
      using k st_k u by (simp add: fs2 len fs_def finished_def)
    moreover have "status f = COMPLETED" if "f \<in> set fs2" for f
    proof -
      from that obtain j where j: "j < length fs" "f = fs2 ! j"
        by (auto simp: in_set_conv_nth fs2 len)
      show ?thesis
      proof (cases "j = k")
        case True
        with j k st_k u show ?thesis by (simp add: fs2 len fs_def finished_def)
      next
        case False
        with j st_j [of j] show ?thesis by (simp add: fs2 len)
      qed
    qed
    then have "count_status COMPLETED fs2 = length fs2"
      by (simp add: count_status_all)
    ultimately show ?thesis
      by (simp add: fs2_def [symmetric]) (simp add: fs2 len)
  qed
  show ?thesis
    using len st_k err_k st_j url_j n_ok n_err todo retry
    unfolding fs1_def [symmetric] fs_def [symmetric] filesToProcess_def
    by blast
qed

theorem processBatch_failure_isolation_witness:
  "distinct (map fid (files (example_state three_items)))
   \<and> count_status COMPLETED (files (processBatch (fails_on ''b.png'') (example_state three_items))) = 2
   \<and> count_status ERROR (files (processBatch (fails_on ''b.png'') (example_state three_items))) = 1
   \<and> count_status COMPLETED
        (files (processBatch always_ok (processBatch (fails_on ''b.png'') (example_state three_items)))) = 3"
proof -
  have h: "distinct (map fid (files (example_state three_items)))"
    "\<forall>f\<in>set (files (example_state three_items)). status f = IDLE \<or> status f = ERROR"
    "1 < length (files (example_state three_items))"
    "isl (fails_on ''b.png'' (files (example_state three_items) ! 1))"
    "\<forall>j<length (files (example_state three_items)). j \<noteq> 1 \<longrightarrow>
        \<not> isl (fails_on ''b.png'' (files (example_state three_items) ! j))"
    by (simp_all add: three_items_def example_item_def example_state_def fails_on_def always_ok_def
      processBatch_def filesToProcess_def process_one_def settle_def set_processing_def
      set_completed_def set_error_def count_status_def less_Suc_eq)
  have u: "always_ok (files (processBatch (fails_on ''b.png'') (example_state three_items)) ! 1)
             = Inr ''blob:out/b.png''"
    by (simp add: three_items_def example_item_def example_state_def fails_on_def always_ok_def
      processBatch_def filesToProcess_def process_one_def settle_def set_processing_def
      set_completed_def set_error_def count_status_def)
  from processBatch_failure_isolation [OF h, of always_ok] u h(1) show ?thesis
    by (simp add: example_state_def three_items_def)
qed

theorem processBatch_failure_isolation_counterexample:
  "map status (files collided) = [IDLE, IDLE]
   \<and> isl (fails_on ''a.png'' (files collided ! 0))
   \<and> \<not> isl (fails_on ''a.png'' (files collided ! 1))
   \<and> count_status COMPLETED (files (processBatch (fails_on ''a.png'') collided)) = 2
   \<and> count_status ERROR (files (processBatch (fails_on ''a.png'') collided)) = 0"
  by (simp add: collided_def handleFiles_def is_image_def png_def new_image_def initial_state_def
      colliding_browser_def three_items_def example_item_def example_state_def fails_on_def always_ok_def
      processBatch_def filesToProcess_def process_one_def settle_def set_processing_def
      set_completed_def set_error_def count_status_def)

section \<open>Settings propagation\<close>

text \<open>
  C2. After \<^verbatim>\<open>updateGlobalSettings\<close> with a partial update, the global settings are the
  former ones merged with the update and the list has the same items in the same places.
  Merged is meant key by key: a key present in the update has the value the update gives
  it, and a key absent from the update has its former value. An item that was IDLE has its
  former settings merged with the update in this sense and is otherwise as it was; an item
  that was PROCESSING, COMPLETED or ERROR is exactly what it was.
\<close>

theorem updateGlobalSettings_propagation:
  assumes "i < length (files s)"
  shows "length (files (updateGlobalSettings d s)) = length (files s)
       \<and> globalSettings (updateGlobalSettings d s) = spread_settings (globalSettings s) d
       \<and> (\<forall>v. p_upscaleFactor d = Some v \<longrightarrow>
             upscaleFactor (globalSettings (updateGlobalSettings d s)) = v)
       \<and> (p_upscaleFactor d = None \<longrightarrow>
             upscaleFactor (globalSettings (updateGlobalSettings d s)) = upscaleFactor (globalSettings s))
       \<and> (\<forall>v. p_dpi d = Some v \<longrightarrow> dpi (globalSettings (updateGlobalSettings d s)) = v)
       \<and> (p_dpi d = None \<longrightarrow>
             dpi (globalSettings (updateGlobalSettings d s)) = dpi (globalSettings s))
       \<and> (\<forall>v. p_preserveStyle d = Some v \<longrightarrow>
             preserveStyle (globalSettings (updateGlobalSettings d s)) = v)
       \<and> (p_preserveStyle d = None \<longrightarrow>
             preserveStyle (globalSettings (updateGlobalSettings d s)) = preserveStyle (globalSettings s))
       \<and> (\<forall>v. p_enabled d = Some v \<longrightarrow> enabled (globalSettings (updateGlobalSettings d s)) = v)
       \<and> (p_enabled d = None \<longrightarrow>
             enabled (globalSettings (updateGlobalSettings d s)) = enabled (globalSettings s))
       \<and> (status (files s ! i) = IDLE \<longrightarrow>
            files (updateGlobalSettings d s) ! i
              = (files s ! i)\<lparr>settings := spread_settings (settings (files s ! i)) d\<rparr>
          \<and> files (updateGlobalSettings d s) ! i
              = (files s ! i)\<lparr>settings := settings (files (updateGlobalSettings d s) ! i)\<rparr>
          \<and> (\<forall>v. p_upscaleFactor d = Some v \<longrightarrow>
                upscaleFactor (settings (files (updateGlobalSettings d s) ! i)) = v)
          \<and> (p_upscaleFactor d = None \<longrightarrow>
                upscaleFactor (settings (files (updateGlobalSettings d s) ! i))
                  = upscaleFactor (settings (files s ! i)))
          \<and> (\<forall>v. p_dpi d = Some v \<longrightarrow> dpi (settings (files (updateGlobalSettings d s) ! i)) = v)
          \<and> (p_dpi d = None \<longrightarrow>
                dpi (settings (files (updateGlobalSettings d s) ! i)) = dpi (settings (files s ! i)))
          \<and> (\<forall>v. p_preserveStyle d = Some v \<longrightarrow>
                preserveStyle (settings (files (updateGlobalSettings d s) ! i)) = v)
          \<and> (p_preserveStyle d = None \<longrightarrow>
                preserveStyle (settings (files (updateGlobalSettings d s) ! i))
                  = preserveStyle (settings (files s ! i)))
          \<and> (\<forall>v. p_enabled d = Some v \<longrightarrow>
                enabled (settings (files (updateGlobalSettings d s) ! i)) = v)
          \<and> (p_enabled d = None \<longrightarrow>
                enabled (settings (files (updateGlobalSettings d s) ! i))
                  = enabled (settings (files s ! i))))
       \<and> (status (files s ! i) \<in> {PROCESSING, COMPLETED, ERROR} \<longrightarrow>
            files (updateGlobalSettings d s) ! i = files s ! i)"
proof -
  have g: "globalSettings (updateGlobalSettings d s) = spread_settings (globalSettings s) d"
    by (simp add: updateGlobalSettings_def Let_def)
  have len: "length (files (updateGlobalSettings d s)) = length (files s)"
    by (simp add: updateGlobalSettings_def Let_def)
  have idle: "files (updateGlobalSettings d s) ! i
                = (files s ! i)\<lparr>settings := spread_settings (settings (files s ! i)) d\<rparr>"
    if "status (files s ! i) = IDLE"
    using assms that by (simp add: updateGlobalSettings_def Let_def)
  have other: "files (updateGlobalSettings d s) ! i = files s ! i"
    if "status (files s ! i) \<in> {PROCESSING, COMPLETED, ERROR}"
    using assms that by (auto simp: updateGlobalSettings_def Let_def)
  have keys:
    "(\<forall>v. p_upscaleFactor d = Some v \<longrightarrow> upscaleFactor (spread_settings old d) = v)
     \<and> (p_upscaleFactor d = None \<longrightarrow> upscaleFactor (spread_settings old d) = upscaleFactor old)
     \<and> (\<forall>v. p_dpi d = Some v \<longrightarrow> dpi (spread_settings old d) = v)
     \<and> (p_dpi d = None \<longrightarrow> dpi (spread_settings old d) = dpi old)
     \<and> (\<forall>v. p_preserveStyle d = Some v \<longrightarrow> preserveStyle (spread_settings old d) = v)
     \<and> (p_preserveStyle d = None \<longrightarrow> preserveStyle (spread_settings old d) = preserveStyle old)
     \<and> (\<forall>v. p_enabled d = Some v \<longrightarrow> enabled (spread_settings old d) = v)
     \<and> (p_enabled d = None \<longrightarrow> enabled (spread_settings old d) = enabled old)" for old
    by (simp add: spread_settings_def)
  show ?thesis
    using len other keys [of "globalSettings s"] keys [of "settings (files s ! i)"]
    by (simp add: g) (simp add: idle)
qed

theorem updateGlobalSettings_propagation_witness:
  "settings (files (updateGlobalSettings (only_factor X8)
      (example_state [custom_item, example_item ''b'' ''b.png'' ERROR])) ! 0)
     = \<lparr>upscaleFactor = X8, dpi = 72, preserveStyle = False, enabled = True\<rparr>
   \<and> globalSettings (updateGlobalSettings (only_factor X8)
      (example_state [custom_item, example_item ''b'' ''b.png'' ERROR]))
     = \<lparr>upscaleFactor = X8, dpi = 300, preserveStyle = True, enabled = True\<rparr>
   \<and> files (updateGlobalSettings (only_factor X8)
      (example_state [custom_item, example_item ''b'' ''b.png'' ERROR])) ! 1
     = example_item ''b'' ''b.png'' ERROR"
  using updateGlobalSettings_propagation
     [of 0 "example_state [custom_item, example_item ''b'' ''b.png'' ERROR]" "only_factor X8"]
    updateGlobalSettings_propagation
     [of 1 "example_state [custom_item, example_item ''b'' ''b.png'' ERROR]" "only_factor X8"]
  by (simp add: example_state_def example_item_def only_factor_def custom_item_def
      DEFAULT_SETTINGS_def DPI_300_def spread_settings_def)

section \<open>The batch run: one file at a time\<close>

text \<open>
  C3. Take a list whose ids are pairwise distinct. The queue of \<^verbatim>\<open>processBatch\<close> is the
  items that are IDLE or ERROR, in the order of the list, and the loop gives the list two
  successive values for each file of the queue. While the k-th file of the queue is
  awaited, the item with its id is that file with the status PROCESSING; once it has
  settled, that item is the file COMPLETED with the result attached, or in ERROR with the
  message, according to the outcome; at the end every selected item is settled and every
  other item is as it was. When no item is PROCESSING as the run starts, which is the case
  whenever no batch is in progress (\<open>idle_no_processing\<close>), the awaited file is the only
  item PROCESSING and no item is PROCESSING once it has settled. In every state that the
  handlers and the loop reach from the empty list with the ids staying pairwise distinct,
  at most one item is PROCESSING.
\<close>

theorem processBatch_sequential:
  assumes ids: "distinct (map fid fs)"
    and k: "k < length (filesToProcess fs)"
  shows "filesToProcess fs = filter (\<lambda>f. status f = IDLE \<or> status f = ERROR) fs
       \<and> length (batch_trace pI (filesToProcess fs) fs) = 2 * length (filesToProcess fs)
       \<and> filter (\<lambda>f. fid f = fid (filesToProcess fs ! k))
            (batch_trace pI (filesToProcess fs) fs ! (2 * k))
           = [(filesToProcess fs ! k)\<lparr>status := PROCESSING\<rparr>]
       \<and> filter (\<lambda>f. fid f = fid (filesToProcess fs ! k))
            (batch_trace pI (filesToProcess fs) fs ! (2 * k + 1))
           = [finished (pI (filesToProcess fs ! k)) (filesToProcess fs ! k)]
       \<and> batch_loop pI (filesToProcess fs) fs
           = map (\<lambda>f. if status f = IDLE \<or> status f = ERROR then finished (pI f) f else f) fs
       \<and> ((\<forall>f\<in>set fs. status f \<noteq> PROCESSING) \<longrightarrow>
            filter (\<lambda>f. status f = PROCESSING) (batch_trace pI (filesToProcess fs) fs ! (2 * k))
              = [(filesToProcess fs ! k)\<lparr>status := PROCESSING\<rparr>]
          \<and> filter (\<lambda>f. status f = PROCESSING)
               (batch_trace pI (filesToProcess fs) fs ! (2 * k + 1)) = [])
       \<and> (ids_distinct_along M as boot \<longrightarrow>
            count_status PROCESSING (files (run M as boot)) \<le> 1)"
proof -
  have "count_status PROCESSING (files (run M as boot)) \<le> 1" if "ids_distinct_along M as boot"
    using processing_inv_run [OF processing_inv_boot, of M as] ids_distinct_along_final [OF that]
    by (rule one_processing)
  moreover have "filter (\<lambda>f. status f = PROCESSING) (batch_trace pI (filesToProcess fs) fs ! (2 * k))
              = [(filesToProcess fs ! k)\<lparr>status := PROCESSING\<rparr>]
          \<and> filter (\<lambda>f. status f = PROCESSING)
               (batch_trace pI (filesToProcess fs) fs ! (2 * k + 1)) = []"
    if "\<forall>f\<in>set fs. status f \<noteq> PROCESSING"
    using trace_awaiting [OF ids that k, of pI] trace_settled_none [OF ids that k, of pI] by simp
  moreover have "filesToProcess fs = filter (\<lambda>f. status f = IDLE \<or> status f = ERROR) fs"
    by (simp add: filesToProcess_def)
  moreover note length_batch_trace [of pI "filesToProcess fs" fs]
    trace_awaiting_item [OF ids k, of pI] trace_settled_item [OF ids k, of pI]
    batch_loop_closed_form [OF ids, of pI]
  ultimately show ?thesis
    by blast
qed

theorem processBatch_sequential_witness:
  "distinct (map fid three_items)
   \<and> filesToProcess three_items ! 1 = example_item ''b'' ''b.png'' ERROR
   \<and> filter (\<lambda>f. status f = PROCESSING)
        (batch_trace (fails_on ''b.png'') (filesToProcess three_items) three_items ! 2)
      = [example_item ''b'' ''b.png'' PROCESSING]
   \<and> filter (\<lambda>f. fid f = ''b'')
        (batch_trace (fails_on ''b.png'') (filesToProcess three_items) three_items ! 3)
      = [(example_item ''b'' ''b.png'' ERROR)\<lparr>error := Some ''Processing failed''\<rparr>]
   \<and> ids_distinct_along 20 awaiting_run boot
   \<and> count_status PROCESSING (files (run 20 awaiting_run boot)) \<le> 1"
proof -
  have h: "distinct (map fid three_items)"
    "1 < length (filesToProcess three_items)"
    "\<forall>f\<in>set three_items. status f \<noteq> PROCESSING"
    by (simp_all add: three_items_def example_item_def filesToProcess_def)
  have r: "ids_distinct_along 20 awaiting_run boot"
    by (simp add: awaiting_run_def boot_def handleFiles_def is_image_def png_def new_image_def
        counting_browser_def next_file_def set_processing_def filesToProcess_def)
  have q: "filesToProcess three_items ! 1 = example_item ''b'' ''b.png'' ERROR"
    by (simp add: three_items_def example_item_def filesToProcess_def)
  note t = processBatch_sequential [OF h(1,2), of "fails_on ''b.png''" 20 awaiting_run]
  from t h(3) have a:
    "filter (\<lambda>f. status f = PROCESSING)
        (batch_trace (fails_on ''b.png'') (filesToProcess three_items) three_items ! (2 * 1))
      = [(filesToProcess three_items ! 1)\<lparr>status := PROCESSING\<rparr>]"
    by blast
  from t have b:
    "filter (\<lambda>f. fid f = fid (filesToProcess three_items ! 1))
        (batch_trace (fails_on ''b.png'') (filesToProcess three_items) three_items ! (2 * 1 + 1))
      = [finished (fails_on ''b.png'' (filesToProcess three_items ! 1))
           (filesToProcess three_items ! 1)]"
    by blast
  from t r have c: "count_status PROCESSING (files (run 20 awaiting_run boot)) \<le> 1"
    by blast
  from a have a': "filter (\<lambda>f. status f = PROCESSING)
        (batch_trace (fails_on ''b.png'') (filesToProcess three_items) three_items ! 2)
      = [example_item ''b'' ''b.png'' PROCESSING]"
    unfolding q by (simp add: example_item_def)
  from b have b': "filter (\<lambda>f. fid f = ''b'')
        (batch_trace (fails_on ''b.png'') (filesToProcess three_items) three_items ! 3)
      = [(example_item ''b'' ''b.png'' ERROR)\<lparr>error := Some ''Processing failed''\<rparr>]"
    unfolding q by (simp add: example_item_def fails_on_def finished_def)
  from h(1) q a' b' r c show ?thesis
    by blast
qed

theorem processBatch_sequential_counterexample:
  "map status (files collided) = [IDLE, IDLE]
   \<and> count_status PROCESSING
        (batch_trace always_ok (filesToProcess (files collided)) (files collided) ! 0) = 2
   \<and> map status (files (run 20 collision_run boot)) = [PROCESSING, PROCESSING]
   \<and> count_status PROCESSING (files (run 20 collision_run boot)) = 2"
  by (simp add: collided_def handleFiles_def is_image_def png_def new_image_def initial_state_def
      colliding_browser_def always_ok_def filesToProcess_def settle_def set_processing_def
      set_completed_def set_error_def count_status_def collision_run_def boot_def next_file_def)

section \<open>The export leaves the list alone\<close>

text \<open>
  C4. \<^verbatim>\<open>downloadAllZip\<close> never touches the file list, the global settings or the batch flag,
  whatever its outcome. When the fetch of the output of some completed file rejects, the
  outcome is the alert of the \<^verbatim>\<open>catch\<close> block: no bundle is downloaded, and the zipping flag
  is off again. An export run on the state a first export left behind has the outcome it
  has on the state before: it can be retried.
\<close>

theorem downloadAllZip_atomic:
  "files (fst (downloadAllZip env s)) = files s
 \<and> globalSettings (fst (downloadAllZip env s)) = globalSettings s
 \<and> isProcessingBatch (fst (downloadAllZip env s)) = isProcessingBatch s
 \<and> ((\<exists>f\<in>set (files s). status f = COMPLETED \<and> truthy (processedUrl f)
        \<and> isl (fetch_blob env (the (processedUrl f))))
      \<longrightarrow> (\<exists>e. snd (downloadAllZip env s) = ZipFailed e)
        \<and> \<not> isZipping (fst (downloadAllZip env s)))
 \<and> snd (downloadAllZip env' (fst (downloadAllZip env s))) = snd (downloadAllZip env' s)"
proof -
  have "\<exists>e. snd (downloadAllZip env s) = ZipFailed e" and "\<not> isZipping (fst (downloadAllZip env s))"
    if f: "f \<in> set (files s)" "status f = COMPLETED" "truthy (processedUrl f)"
      "isl (fetch_blob env (the (processedUrl f)))" for f
  proof -
    define cs where "cs = filter (\<lambda>f. status f = COMPLETED \<and> truthy (processedUrl f)) (files s)"
    have mem: "f \<in> set cs" using f by (simp add: cs_def)
    then have ne: "cs \<noteq> []" by auto
    from add_files_fails [OF mem f(3,4), where entries = "[]"] obtain e where "add_files env cs [] = Inl e"
      by (cases "add_files env cs []") auto
    with ne show "\<exists>e. snd (downloadAllZip env s) = ZipFailed e"
      and "\<not> isZipping (fst (downloadAllZip env s))"
      by (simp_all add: downloadAllZip_def cs_def [symmetric])
  qed
  moreover have "files (fst (downloadAllZip env s)) = files s"
    "globalSettings (fst (downloadAllZip env s)) = globalSettings s"
    "isProcessingBatch (fst (downloadAllZip env s)) = isProcessingBatch s"
    "snd (downloadAllZip env' (fst (downloadAllZip env s))) = snd (downloadAllZip env' s)"
    by (simp_all add: downloadAllZip_def Let_def)
  ultimately show ?thesis by blast
qed

theorem downloadAllZip_atomic_witness:
  "snd (downloadAllZip (example_exporter [''u2''])
          (example_state [completed_item ''a'' ''a.png'' ''u1'', completed_item ''b'' ''b.jpg'' ''u2'']))
     = ZipFailed (JsError ''fetch'')
   \<and> files (fst (downloadAllZip (example_exporter [''u2''])
          (example_state [completed_item ''a'' ''a.png'' ''u1'', completed_item ''b'' ''b.jpg'' ''u2''])))
     = [completed_item ''a'' ''a.png'' ''u1'', completed_item ''b'' ''b.jpg'' ''u2'']
   \<and> snd (downloadAllZip (example_exporter [])
          (fst (downloadAllZip (example_exporter [''u2''])
          (example_state [completed_item ''a'' ''a.png'' ''u1'', completed_item ''b'' ''b.jpg'' ''u2'']))))
     = Downloaded ''UltraArt_Batch_2024-05-01.zip'' [117, 49, 117, 50]"
  using downloadAllZip_atomic
    [where env = "example_exporter [''u2'']" and env' = "example_exporter []"
       and s = "example_state [completed_item ''a'' ''a.png'' ''u1'', completed_item ''b'' ''b.jpg'' ''u2'']"]
  by (simp add: downloadAllZip_def example_exporter_def example_state_def completed_item_def
      example_item_def truthy_def strip_ext_def AList.update.simps)

section \<open>Submission and capacity\<close>

text \<open>
  C5. With k files in the list and n images among the incoming files, \<^verbatim>\<open>handleFiles\<close>
  leaves the whole state as it was when k + n exceeds \<open>MAX_FILES\<close>; otherwise the list
  becomes the old list followed by one new item for each of the n images, in their order.
\<close>

theorem handleFiles_capacity:
  "handleFiles M env None s = s
 \<and> (length (files s) + length (filter is_image nf) > M \<longrightarrow>
      handleFiles M env (Some nf) s = s)
 \<and> (length (files s) + length (filter is_image nf) \<le> M \<longrightarrow>
      files (handleFiles M env (Some nf) s)
        = files s @ map (new_image env (globalSettings s)) (enumerate 0 (filter is_image nf))
    \<and> map file_obj (drop (length (files s)) (files (handleFiles M env (Some nf) s)))
        = filter is_image nf
    \<and> length (files (handleFiles M env (Some nf) s))
        = length (files s) + length (filter is_image nf))"
  by (simp add: handleFiles_def Let_def file_obj_new_image)

theorem handleFiles_capacity_witness:
  "handleFiles 2 counting_browser (Some [png ''c.png''])
      (example_state [example_item ''a'' ''a.png'' IDLE, example_item ''b'' ''b.png'' ERROR])
     = example_state [example_item ''a'' ''a.png'' IDLE, example_item ''b'' ''b.png'' ERROR]
   \<and> map file_obj (drop 2 (files (handleFiles 3 counting_browser (Some [png ''c.png''])
      (example_state [example_item ''a'' ''a.png'' IDLE, example_item ''b'' ''b.png'' ERROR]))))
     = [png ''c.png'']"
  using handleFiles_capacity
     [where s = "example_state [example_item ''a'' ''a.png'' IDLE, example_item ''b'' ''b.png'' ERROR]"
        and nf = "[png ''c.png'']" and M = 2 and env = counting_browser]
    handleFiles_capacity
     [where s = "example_state [example_item ''a'' ''a.png'' IDLE, example_item ''b'' ''b.png'' ERROR]"
        and nf = "[png ''c.png'']" and M = 3 and env = counting_browser]
  by (simp add: example_state_def png_def is_image_def new_image_def)

section \<open>Output and status\<close>

text \<open>
  C6. Start from the empty list and run any sequence of events: submissions, dimension
  probes, settings updates, analyses, removals, clearing, clicks on the batch button and
  settlements of the awaited \<^verbatim>\<open>processImage\<close>. If the ids of the list are pairwise distinct in
  every state passed through, then in the state reached an item has a \<^verbatim>\<open>processedUrl\<close>
  if and only if its status is COMPLETED.
\<close>

theorem output_iff_completed_reachable:
  assumes "ids_distinct_along M as boot"
  shows "output_iff_completed (files (run M as boot))"
  using inv_run [OF batch_inv_boot assms] by (simp add: batch_inv_def)

theorem output_iff_completed_reachable_witness:
  "ids_distinct_along 20 (example_run counting_browser) boot
   \<and> map status (files (run 20 (example_run counting_browser) boot)) = [COMPLETED, ERROR]
   \<and> map processedUrl (files (run 20 (example_run counting_browser) boot)) = [Some ''blob:out/a'', None]
   \<and> output_iff_completed (files (run 20 (example_run counting_browser) boot))"
proof -
  have h: "ids_distinct_along 20 (example_run counting_browser) boot"
    by (simp add: example_run_def counting_browser_def boot_def handleFiles_def is_image_def png_def new_image_def
        next_file_def filesToProcess_def settle_def set_processing_def set_completed_def
        set_error_def output_iff_completed_def has_output_def)
  from output_iff_completed_reachable [OF h] h show ?thesis
    by (simp add: example_run_def counting_browser_def boot_def handleFiles_def is_image_def png_def new_image_def
        next_file_def filesToProcess_def settle_def set_processing_def set_completed_def
        set_error_def output_iff_completed_def has_output_def)
qed

theorem output_iff_completed_reachable_counterexample:
  "map status (files (run 20 (collision_run) boot)) = [PROCESSING, PROCESSING]
   \<and> map processedUrl (files (run 20 (collision_run) boot))
       = [Some ''blob:out/a'', Some ''blob:out/a'']
   \<and> \<not> output_iff_completed (files (run 20 (collision_run) boot))"
  by (simp add: collision_run_def colliding_browser_def boot_def handleFiles_def is_image_def png_def new_image_def
        next_file_def filesToProcess_def settle_def set_processing_def set_completed_def
        set_error_def output_iff_completed_def has_output_def)

section \<open>Identifiers\<close>




section \<open>Dimension probing\<close>

text \<open>
  C8. The update of \<^verbatim>\<open>img.onload\<close> goes by id: it keeps the length of the list, sets the
  width and height of the items that have the id of the probed item and leaves every other
  item as it is. When no item of the list has that id the list stays as it is. So it does
  right after \<^verbatim>\<open>removeFile\<close> has removed the item, and after any further events among which
  no submission draws that id again: the probe then leaves the whole state as it is, and
  no item with that id is in the list. The update is a total function: nothing is raised.
\<close>

theorem img_onload_discarded:
  "length (img_onload pid w h fs) = length fs
 \<and> (\<forall>i<length fs. img_onload pid w h fs ! i
        = (if fid (fs ! i) = pid then (fs ! i)\<lparr>width := w, height := h\<rparr> else fs ! i))
 \<and> (pid \<notin> set (map fid fs) \<longrightarrow> img_onload pid w h fs = fs)
 \<and> img_onload pid w h (removeFile pid fs) = removeFile pid fs
 \<and> pid \<notin> set (map fid (img_onload pid w h (removeFile pid fs)))
 \<and> (list_all (\<lambda>a. \<not> draws_id pid a) as \<longrightarrow>
       pid \<notin> set (map fid (files (run M (RemoveFile pid # as) s)))
     \<and> exec M (ImgOnload pid w h) (run M (RemoveFile pid # as) s) = run M (RemoveFile pid # as) s)"
proof -
  have rm: "pid \<notin> fid ` set (filter (\<lambda>f. fid f \<noteq> pid) fs)" for fs
    by auto
  have "pid \<notin> set (map fid (files (run M (RemoveFile pid # as) s)))
      \<and> exec M (ImgOnload pid w h) (run M (RemoveFile pid # as) s) = run M (RemoveFile pid # as) s"
    if "list_all (\<lambda>a. \<not> draws_id pid a) as"
  proof -
    have "pid \<notin> set (map fid (files (exec M (RemoveFile pid) s)))"
      using rm [of "files s"] by (simp add: removeFile_def)
    from no_id_run [OF this that, of M]
    have gone: "pid \<notin> set (map fid (files (run M (RemoveFile pid # as) s)))"
      by simp
    then have "img_onload pid w h (files (run M (RemoveFile pid # as) s))
                 = files (run M (RemoveFile pid # as) s)"
      by (simp add: img_onload_def map_if_fid_ident)
    with gone show ?thesis
      by simp
  qed
  then show ?thesis
    using rm [of fs] by (simp add: img_onload_def removeFile_def map_if_fid_ident)
qed

theorem img_onload_discarded_witness:
  "''z'' \<notin> set (map fid [example_item ''a'' ''a.png'' IDLE])
   \<and> img_onload ''z'' 640 480 [example_item ''a'' ''a.png'' IDLE] = [example_item ''a'' ''a.png'' IDLE]
   \<and> img_onload ''a'' 640 480 (removeFile ''a'' [example_item ''a'' ''a.png'' IDLE]) = []
   \<and> list_all (\<lambda>a. \<not> draws_id ''a'' a) [HandleFiles counting_browser (Some [png ''c.png''])]
   \<and> map fid (files (run 20 [RemoveFile ''a'', HandleFiles counting_browser (Some [png ''c.png''])]
        two_items_state)) = [''b'', ''i'']
   \<and> exec 20 (ImgOnload ''a'' 640 480)
        (run 20 [RemoveFile ''a'', HandleFiles counting_browser (Some [png ''c.png''])] two_items_state)
      = run 20 [RemoveFile ''a'', HandleFiles counting_browser (Some [png ''c.png''])] two_items_state"
proof -
  have h: "list_all (\<lambda>a. \<not> draws_id ''a'' a) [HandleFiles counting_browser (Some [png ''c.png''])]"
    by (simp add: counting_browser_def png_def is_image_def)
  have v: "map fid (files (run 20 [RemoveFile ''a'', HandleFiles counting_browser (Some [png ''c.png''])]
        two_items_state)) = [''b'', ''i'']"
    by (simp add: two_items_state_def boot_def example_item_def removeFile_def handleFiles_def
        is_image_def png_def new_image_def counting_browser_def)
  from img_onload_discarded
      [where pid = "''a''" and fs = "[example_item ''a'' ''a.png'' IDLE]" and w = 640 and h = 480
         and as = "[HandleFiles counting_browser (Some [png ''c.png''])]" and M = 20
         and s = two_items_state] h
  have "exec 20 (ImgOnload ''a'' 640 480)
        (run 20 [RemoveFile ''a'', HandleFiles counting_browser (Some [png ''c.png''])] two_items_state)
      = run 20 [RemoveFile ''a'', HandleFiles counting_browser (Some [png ''c.png''])] two_items_state"
    by blast
  moreover have "''z'' \<notin> set (map fid [example_item ''a'' ''a.png'' IDLE])"
    "img_onload ''z'' 640 480 [example_item ''a'' ''a.png'' IDLE] = [example_item ''a'' ''a.png'' IDLE]"
    "img_onload ''a'' 640 480 (removeFile ''a'' [example_item ''a'' ''a.png'' IDLE]) = []"
    using img_onload_discarded
      [where pid = "''z''" and fs = "[example_item ''a'' ''a.png'' IDLE]" and w = 640 and h = 480
         and as = "[]" and M = 20 and s = two_items_state]
    by (simp_all add: example_item_def removeFile_def img_onload_def)
  ultimately show ?thesis
    using h v by blast
qed

theorem img_onload_discarded_counterexample:
  "map fid (files (exec 20 (HandleFiles colliding_browser (Some [png ''a.png''])) boot)) = [''i'']
   \<and> ids_distinct_along 20 redraw_run boot
   \<and> map originalName (files (run 20 redraw_run boot)) = [''b.png'']
   \<and> map width (files (run 20 redraw_run boot)) = [0]
   \<and> map originalName (files (exec 20 (ImgOnload ''i'' 640 480) (run 20 redraw_run boot)))
       = [''b.png'']
   \<and> map width (files (exec 20 (ImgOnload ''i'' 640 480) (run 20 redraw_run boot))) = [640]
   \<and> map height (files (exec 20 (ImgOnload ''i'' 640 480) (run 20 redraw_run boot))) = [480]
   \<and> files (exec 20 (ImgOnload ''i'' 640 480) (run 20 redraw_run boot))
       \<noteq> files (run 20 redraw_run boot)"
  by (simp add: redraw_run_def boot_def handleFiles_def is_image_def png_def new_image_def
      colliding_browser_def removeFile_def img_onload_def)

section \<open>Dimensions of the resampled raster\<close>

text \<open>
  C9. For a source raster with a positive width and height and any of the four factors,
  the resampler returns a raster whose width and height are the source's times the factor,
  the factor being 1, 2, 4 or 8; with factor 1 the raster returned is the source.
\<close>

theorem resampler_dimensions:
  assumes "0 < r_width src" "0 < r_height src"
  shows "\<exists>out. Resampler interp src f style = Inr out
           \<and> r_width out = r_width src * factor_value f
           \<and> r_height out = r_height src * factor_value f
           \<and> factor_value f \<in> {1, 2, 4, 8}
           \<and> (f = NONE \<longrightarrow> out = src)"
  using assms by (cases f) (simp_all add: Resampler_def)

theorem resampler_dimensions_witness:
  "r_width (projr (Resampler nearest (flat_raster 3 2) X4 True)) = 12
   \<and> r_height (projr (Resampler nearest (flat_raster 3 2) X4 True)) = 8
   \<and> Resampler nearest (flat_raster 3 2) NONE True = Inr (flat_raster 3 2)"
  using resampler_dimensions [of "flat_raster 3 2" nearest X4 True]
    resampler_dimensions [of "flat_raster 3 2" nearest NONE True]
  by (auto simp: flat_raster_def)

section \<open>The batch run: the message of an earlier failure\<close>

text \<open>
  C10. Let the k-th file of the queue be the item at position i of the list, in ERROR with
  the message \<open>Processing failed\<close>, and let its \<^verbatim>\<open>processImage\<close> resolve. The transition to
  COMPLETED changes the status and \<^verbatim>\<open>processedUrl\<close> of the item and nothing else, so the
  item, now COMPLETED with the result attached, still carries the message; it carries it
  at the end of the run too.
\<close>

theorem retry_keeps_error_message:
  assumes k: "k < length (filesToProcess fs)"
    and i: "i < length fs"
    and same: "fs ! i = filesToProcess fs ! k"
    and st: "status (fs ! i) = ERROR"
    and msg: "error (fs ! i) = Some ''Processing failed''"
    and ok: "pI (fs ! i) = Inr url"
  shows "batch_trace pI (filesToProcess fs) fs ! (2 * k + 1) ! i
           = (batch_trace pI (filesToProcess fs) fs ! (2 * k) ! i)
               \<lparr>status := COMPLETED, processedUrl := Some url\<rparr>
       \<and> status (batch_trace pI (filesToProcess fs) fs ! (2 * k + 1) ! i) = COMPLETED
       \<and> processedUrl (batch_trace pI (filesToProcess fs) fs ! (2 * k + 1) ! i) = Some url
       \<and> error (batch_trace pI (filesToProcess fs) fs ! (2 * k + 1) ! i) = Some ''Processing failed''
       \<and> error (batch_loop pI (filesToProcess fs) fs ! i) = Some ''Processing failed''
       \<and> (distinct (map fid fs) \<longrightarrow>
            batch_loop pI (filesToProcess fs) fs ! i
              = (fs ! i)\<lparr>status := COMPLETED, processedUrl := Some url\<rparr>)"
proof -
  define q where "q = filesToProcess fs"
  define t0 where "t0 = batch_loop pI (take k q) fs"
  define t1 where "t1 = batch_trace pI q fs ! (2 * k)"
  define t2 where "t2 = batch_trace pI q fs ! (2 * k + 1)"
  have t0: "length t0 = length fs" "fid (t0 ! i) = fid (q ! k)"
    "error (t0 ! i) = Some ''Processing failed''"
    using batch_loop_nth [OF i, of pI "take k q"] msg same by (simp_all add: t0_def q_def)
  have "t1 = set_processing (fid (q ! k)) t0"
    using batch_trace_nth [of k q pI fs] k unfolding q_def t1_def t0_def by blast
  then have t1: "t1 ! i = (t0 ! i)\<lparr>status := PROCESSING\<rparr>" "length t1 = length fs"
    using i t0 by (simp_all add: set_processing_def)
  have "t2 = settle (pI (q ! k)) (q ! k) t1"
    using batch_trace_nth [of k q pI fs] k unfolding q_def t1_def t2_def by blast
  then have "t2 = set_completed (fid (q ! k)) url t1"
    using ok same by (simp add: settle_def q_def)
  then have t2: "t2 ! i = (t1 ! i)\<lparr>status := COMPLETED, processedUrl := Some url\<rparr>"
    using i t0 t1 by (simp add: set_completed_def)
  have fin: "error (batch_loop pI q fs ! i) = Some ''Processing failed''"
    using batch_loop_nth [OF i, of pI q] msg by simp
  have "batch_loop pI q fs ! i = (fs ! i)\<lparr>status := COMPLETED, processedUrl := Some url\<rparr>"
    if "distinct (map fid fs)"
    using batch_loop_closed_form [OF that, of pI] i st ok
    by (simp add: q_def finished_def)
  with t2 t1 t0 fin show ?thesis
    by (simp add: q_def t1_def t2_def)
qed

theorem retry_keeps_error_message_witness:
  "(example_item ''b'' ''b.png'' ERROR)\<lparr>error := Some ''Processing failed''\<rparr>
      = filesToProcess [example_item ''a'' ''a.png'' IDLE,
          (example_item ''b'' ''b.png'' ERROR)\<lparr>error := Some ''Processing failed''\<rparr>] ! 1
   \<and> status (batch_loop always_ok
        (filesToProcess [example_item ''a'' ''a.png'' IDLE,
          (example_item ''b'' ''b.png'' ERROR)\<lparr>error := Some ''Processing failed''\<rparr>])
        [example_item ''a'' ''a.png'' IDLE,
          (example_item ''b'' ''b.png'' ERROR)\<lparr>error := Some ''Processing failed''\<rparr>] ! 1) = COMPLETED
   \<and> error (batch_loop always_ok
        (filesToProcess [example_item ''a'' ''a.png'' IDLE,
          (example_item ''b'' ''b.png'' ERROR)\<lparr>error := Some ''Processing failed''\<rparr>])
        [example_item ''a'' ''a.png'' IDLE,
          (example_item ''b'' ''b.png'' ERROR)\<lparr>error := Some ''Processing failed''\<rparr>] ! 1)
      = Some ''Processing failed''"
  using retry_keeps_error_message
    [where k = 1 and i = 1 and pI = always_ok and url = "''blob:out/b.png''"
       and fs = "[example_item ''a'' ''a.png'' IDLE,
          (example_item ''b'' ''b.png'' ERROR)\<lparr>error := Some ''Processing failed''\<rparr>]"]
  by (simp add: example_item_def always_ok_def filesToProcess_def)

end
